theory Spec2Isabelle
  imports Complex_Main "HOL-Library.AList" "HOL-Library.List_Lexorder" "HOL-Library.Char_ord"
begin

section \<open>Strings and addresses\<close>

text \<open>
  Addresses are JavaScript strings. A transfer record whose \<^verbatim>\<open>from\<close> or \<^verbatim>\<open>to\<close> is
  missing carries \<^verbatim>\<open>undefined\<close> there, which is \<open>None\<close> below. The engine compares
  addresses with \<^verbatim>\<open>toLowerCase()\<close>; addresses are ASCII, so the model lowers the
  twenty-six ASCII capitals (codes 65 to 90) and leaves every other character alone.
\<close>

type_synonym addr = "string option"

definition lowerChar :: "char \<Rightarrow> char" where
  "lowerChar c =
     (if (65::nat) \<le> of_char c \<and> of_char c \<le> (90::nat) then char_of (of_char c + (32::nat)) else c)"

definition toLowerCase :: "string \<Rightarrow> string" where
  "toLowerCase s = map lowerChar s"

text \<open>\<^verbatim>\<open>String.prototype.includes\<close>: the needle occurs as a contiguous block.\<close>

fun str_includes :: "string \<Rightarrow> string \<Rightarrow> bool" where
  "str_includes [] sub = (sub = [])"
| "str_includes (c # cs) sub = (take (length sub) (c # cs) = sub \<or> str_includes cs sub)"

text \<open>The template literal \<^verbatim>\<open>`${x}`\<close> prints a missing value as \<^verbatim>\<open>undefined\<close>.\<close>

definition str :: "addr \<Rightarrow> string" where
  "str a = (case a of None \<Rightarrow> ''undefined'' | Some s \<Rightarrow> s)"

text \<open>A string is truthy when it is present and not empty.\<close>

definition truthy :: "string option \<Rightarrow> bool" where
  "truthy a = (case a of None \<Rightarrow> False | Some s \<Rightarrow> s \<noteq> [])"

section \<open>Insertion-ordered sets and maps\<close>

text \<open>
  A JavaScript \<^verbatim>\<open>Set\<close> iterates in insertion order and ignores a second insertion;
  a \<^verbatim>\<open>Map\<close> keeps the position of a key that is set again. Sets are lists without
  repetition, maps are association lists changed with \<^const>\<open>AList.update\<close>.
\<close>

definition set_add :: "'a \<Rightarrow> 'a list \<Rightarrow> 'a list" where
  "set_add x xs = (if x \<in> set xs then xs else xs @ [x])"

definition map_has :: "('k \<times> 'v) list \<Rightarrow> 'k \<Rightarrow> bool" where
  "map_has m k = (k \<in> fst ` set m)"

definition map_keys :: "('k \<times> 'v) list \<Rightarrow> 'k list" where
  "map_keys m = map fst m"

definition map_values :: "('k \<times> 'v) list \<Rightarrow> 'v list" where
  "map_values m = map snd m"

section \<open>Data model\<close>

text \<open>
  Of a transfer the engine reads the two addresses, the value, the token, the time and
  the type. JavaScript numbers are reals here: rounding is not modelled. A time stamp is
  the epoch milliseconds that \<^verbatim>\<open>new Date\<close> makes of it.
\<close>

datatype TxType = native | erc20

record Transaction =
  tx_id :: string
  tx_hash :: string
  tx_from :: addr
  tx_to :: addr
  tx_value :: real
  tx_token :: "string option"
  tx_timestamp :: int
  tx_type :: TxType

record Label =
  lb_address :: string
  lb_label :: string
  lb_tag_type :: string

datatype Theme = light | dark

datatype error = TypeError | ProviderError | CallbackError

section \<open>Graph builder: the filter chain\<close>

text \<open>
  \<^verbatim>\<open>availableTokens\<close>: the distinct truthy tokens of the transfers of the active type,
  sorted.
\<close>

definition availableTokens :: "Transaction list \<Rightarrow> TxType \<Rightarrow> string list" where
  "availableTokens loaded ty =
     sort (filter (\<lambda>s. s \<noteq> [])
       (fold (\<lambda>t tokens. case tx_token t of
                 None \<Rightarrow> tokens
               | Some s \<Rightarrow> if s \<noteq> [] then set_add s tokens else tokens)
             (filter (\<lambda>t. tx_type t = ty) loaded) []))"

text \<open>
  The token stage of the filter. It runs only when some token is available; an empty
  selection is replaced by the whole available set, and a transfer passes when its token
  is truthy and in the set used.
\<close>

definition tokenFilter :: "string list \<Rightarrow> string list \<Rightarrow> Transaction list \<Rightarrow> Transaction list" where
  "tokenFilter available selected filteredData =
     (if length available > 0 then
        (let tokensToFilter = (if length selected > 0 then selected else available)
         in filter (\<lambda>t. case tx_token t of
                      None \<Rightarrow> False
                    | Some s \<Rightarrow> s \<noteq> [] \<and> s \<in> set tokensToFilter) filteredData)
      else filteredData)"

text \<open>
  Timestamps are the epoch milliseconds of \<^verbatim>\<open>new Date(t.timestamp)\<close>. The end of the
  range is moved to the last millisecond of its day by \<^verbatim>\<open>setHours(23,59,59,999)\<close>,
  which depends on the local time zone and is the parameter \<open>endOfDay\<close>.
\<close>

record Filters =
  activeType :: TxType
  dateStart :: "int option"
  dateEnd :: "int option"
  dustThreshold :: real
  selectedTokens :: "string list"

definition preTokenFilter :: "(int \<Rightarrow> int) \<Rightarrow> Filters \<Rightarrow> Transaction list \<Rightarrow> Transaction list" where
  "preTokenFilter eod f loaded =
     (let d0 = filter (\<lambda>t. tx_type t = activeType f) loaded;
          d1 = (case dateStart f of None \<Rightarrow> d0
                | Some s \<Rightarrow> filter (\<lambda>t. tx_timestamp t \<ge> s) d0);
          d2 = (case dateEnd f of None \<Rightarrow> d1
                | Some e \<Rightarrow> filter (\<lambda>t. tx_timestamp t \<le> eod e) d1)
      in if dustThreshold f > 0 then filter (\<lambda>t. tx_value t \<ge> dustThreshold f) d2 else d2)"

definition filterData :: "(int \<Rightarrow> int) \<Rightarrow> Filters \<Rightarrow> Transaction list \<Rightarrow> Transaction list" where
  "filterData eod f loaded =
     tokenFilter (availableTokens loaded (activeType f)) (selectedTokens f) (preTokenFilter eod f loaded)"

section \<open>Graph builder: balances, adjacency and links\<close>

record Link =
  lk_source :: addr
  lk_target :: addr
  lk_value :: real
  lk_count :: nat
  lk_isBidirectional :: bool

record Graph =
  balanceMap :: "(addr \<times> real) list"
  adj :: "(addr \<times> addr list) list"
  linkMap :: "(string \<times> Link) list"

text \<open>\<^verbatim>\<open>balanceMap.get(k) || 0\<close>: a missing key reads as zero.\<close>

definition getOrZero :: "('k \<times> real) list \<Rightarrow> 'k \<Rightarrow> real" where
  "getOrZero m k = (case map_of m k of None \<Rightarrow> 0 | Some v \<Rightarrow> v)"

definition linkKey :: "addr \<Rightarrow> addr \<Rightarrow> string" where
  "linkKey a b = str a @ ''-'' @ str b"

text \<open>
  The body of \<^verbatim>\<open>filteredData.forEach\<close>. Nothing is tested before the maps are
  written: a missing \<^verbatim>\<open>from\<close> or \<^verbatim>\<open>to\<close> becomes the key \<^verbatim>\<open>undefined\<close>.
\<close>

definition addTransfer :: "Transaction \<Rightarrow> Graph \<Rightarrow> Graph" where
  "addTransfer tx g =
     (let b1 = AList.update (tx_from tx) (getOrZero (balanceMap g) (tx_from tx) + tx_value tx) (balanceMap g);
          b2 = AList.update (tx_to tx) (getOrZero b1 (tx_to tx) + tx_value tx) b1;
          a1 = (if \<not> map_has (adj g) (tx_from tx) then AList.update (tx_from tx) [] (adj g) else adj g);
          a2 = (if \<not> map_has a1 (tx_to tx) then AList.update (tx_to tx) [] a1 else a1);
          a3 = AList.map_entry (tx_from tx) (set_add (tx_to tx)) a2;
          a4 = AList.map_entry (tx_to tx) (set_add (tx_from tx)) a3;
          key = linkKey (tx_from tx) (tx_to tx);
          l1 = (if \<not> map_has (linkMap g) key
                then AList.update key \<lparr>lk_source = tx_from tx, lk_target = tx_to tx, lk_value = 0,
                                       lk_count = 0, lk_isBidirectional = False\<rparr> (linkMap g)
                else linkMap g);
          l2 = AList.map_entry key
                 (\<lambda>l. l\<lparr>lk_value := lk_value l + tx_value tx, lk_count := lk_count l + 1\<rparr>) l1
      in \<lparr>balanceMap = b2, adj = a4, linkMap = l2\<rparr>)"

definition buildGraph :: "Transaction list \<Rightarrow> Graph" where
  "buildGraph filteredData = fold addTransfer filteredData \<lparr>balanceMap = [], adj = [], linkMap = []\<rparr>"

definition validNodes :: "Graph \<Rightarrow> addr list" where
  "validNodes g = map_keys (balanceMap g)"

text \<open>
  The links whose two ends are nodes, each marked bidirectional when the key of the
  reverse link is among them. The optional flag \<^verbatim>\<open>isBidirectional\<close> is \<open>False\<close> where
  the source leaves it unset.
\<close>

definition preFilteredLinks :: "Graph \<Rightarrow> Link list" where
  "preFilteredLinks g =
     (let pre = filter (\<lambda>l. lk_source l \<in> set (validNodes g) \<and> lk_target l \<in> set (validNodes g))
                       (map_values (linkMap g));
          linkKeys = map (\<lambda>l. linkKey (lk_source l) (lk_target l)) pre
      in map (\<lambda>l. if linkKey (lk_target l) (lk_source l) \<in> set linkKeys
                  then l\<lparr>lk_isBidirectional := True\<rparr> else l) pre)"

section \<open>Hop labeler\<close>

text \<open>The state of the search: \<^verbatim>\<open>computedHopMap\<close>, \<^verbatim>\<open>queue\<close> and \<^verbatim>\<open>visited\<close>.\<close>

type_synonym 'a bfs_state = "('a \<times> nat) list \<times> ('a \<times> nat) list \<times> 'a list"

text \<open>A loop whose body may throw stops at the first exception.\<close>

fun foldE :: "('a \<Rightarrow> 's \<Rightarrow> error + 's) \<Rightarrow> 'a list \<Rightarrow> 's \<Rightarrow> error + 's" where
  "foldE f [] s = Inr s"
| "foldE f (x # xs) s = (case f x s of Inl e \<Rightarrow> Inl e | Inr s' \<Rightarrow> foldE f xs s')"

text \<open>
  Seeding compares \<^verbatim>\<open>validNode.toLowerCase()\<close> with \<^verbatim>\<open>base.toLowerCase()\<close>; the left
  side throws on the key \<^verbatim>\<open>undefined\<close>.
\<close>

definition seedNode :: "string \<Rightarrow> addr \<Rightarrow> addr bfs_state \<Rightarrow> error + addr bfs_state" where
  "seedNode base validNode s =
     (case s of (hop, queue, visited) \<Rightarrow>
        (case validNode of
           None \<Rightarrow> Inl TypeError
         | Some v \<Rightarrow>
             if toLowerCase v = toLowerCase base
             then Inr (AList.update validNode 0 hop, queue @ [(validNode, 0)], set_add validNode visited)
             else Inr (hop, queue, visited)))"

definition seedHops :: "string list \<Rightarrow> addr list \<Rightarrow> error + addr bfs_state" where
  "seedHops baseAddresses vnodes =
     foldE (\<lambda>base. foldE (seedNode base) vnodes) baseAddresses ([], [], [])"

definition visitNeighbor :: "nat \<Rightarrow> 'a \<Rightarrow> 'a bfs_state \<Rightarrow> 'a bfs_state" where
  "visitNeighbor level neighborId s =
     (case s of (hop, queue, visited) \<Rightarrow>
        if neighborId \<notin> set visited
        then (AList.update neighborId (level + 1) hop, queue @ [(neighborId, level + 1)],
              set_add neighborId visited)
        else (hop, queue, visited))"

lemma visitNeighbor_apply:
  "visitNeighbor level x (hop, queue, visited) =
     (if x \<notin> set visited
      then (AList.update x (level + 1) hop, queue @ [(x, level + 1)], set_add x visited)
      else (hop, queue, visited))"
  by (simp add: visitNeighbor_def)

lemma visitNeighbor_measure:
  assumes "finite N" "set nbs \<subseteq> N"
  shows "(case fold (visitNeighbor level) nbs (hop, queue, visited) of (h, q, v) \<Rightarrow>
            2 * card (N - set v) + length q) \<le> 2 * card (N - set visited) + length queue"
  using assms(2)
proof (induction nbs arbitrary: hop queue visited)
  case Nil
  then show ?case by simp
next
  case (Cons x xs)
  show ?case
  proof (cases "x \<in> set visited")
    case True
    then show ?thesis using Cons by (simp add: visitNeighbor_apply)
  next
    case False
    have xN: "x \<in> N" using Cons.prems by simp
    have pos: "card (N - set visited) > 0"
      using xN False assms(1) by (metis DiffI card_gt_0_iff empty_iff finite_Diff)
    have eq: "N - set (set_add x visited) = (N - set visited) - {x}"
      using False by (auto simp: set_add_def)
    have "card (N - set (set_add x visited)) = card (N - set visited) - 1"
      unfolding eq using xN False assms(1) by simp
    moreover have "(case fold (visitNeighbor level) xs
            (AList.update x (level + 1) hop, queue @ [(x, level + 1)], set_add x visited)
          of (h, q, v) \<Rightarrow> 2 * card (N - set v) + length q)
        \<le> 2 * card (N - set (set_add x visited)) + length (queue @ [(x, level + 1)])"
      using Cons.IH [of "AList.update x (level + 1) hop" "queue @ [(x, level + 1)]" "set_add x visited"]
        Cons.prems by simp
    ultimately show ?thesis using False pos by (simp add: visitNeighbor_apply)
  qed
qed

text \<open>
  The \<^verbatim>\<open>while (queue.length > 0)\<close> loop: take the head, and visit each neighbour that
  is not yet visited.
\<close>

function bfsLoop :: "('a \<times> 'a list) list \<Rightarrow> 'a bfs_state \<Rightarrow> 'a bfs_state" where
  "bfsLoop adjacency (hop, [], visited) = (hop, [], visited)"
| "bfsLoop adjacency (hop, (ident, level) # rest, visited) =
     (case map_of adjacency ident of
        None \<Rightarrow> bfsLoop adjacency (hop, rest, visited)
      | Some neighbors \<Rightarrow> bfsLoop adjacency (fold (visitNeighbor level) neighbors (hop, rest, visited)))"
  by pat_completeness auto
termination
proof (relation "measure (\<lambda>(adjacency, (hop, queue, visited)).
          2 * card (set (concat (map snd adjacency)) - set visited) + length queue)")
  show "wf (measure (\<lambda>(adjacency, (hop, queue, visited)).
          2 * card (set (concat (map snd adjacency)) - set visited) + length queue))"
    by simp
next
  fix adjacency :: "('a \<times> 'a list) list" and hop ident level rest visited
  assume "map_of adjacency ident = None"
  then show "((adjacency, hop, rest, visited), adjacency, hop, (ident, level) # rest, visited)
      \<in> measure (\<lambda>(adjacency, (hop, queue, visited)).
          2 * card (set (concat (map snd adjacency)) - set visited) + length queue)"
    by simp
next
  fix adjacency :: "('a \<times> 'a list) list" and hop ident level rest visited neighbors
  assume a: "map_of adjacency ident = Some neighbors"
  then have "(ident, neighbors) \<in> set adjacency" by (rule map_of_SomeD)
  then have sub: "set neighbors \<subseteq> set (concat (map snd adjacency))" by force
  obtain h q v where f: "fold (visitNeighbor level) neighbors (hop, rest, visited) = (h, q, v)"
    by (cases "fold (visitNeighbor level) neighbors (hop, rest, visited)") auto
  have "2 * card (set (concat (map snd adjacency)) - set v) + length q
      \<le> 2 * card (set (concat (map snd adjacency)) - set visited) + length rest"
    using visitNeighbor_measure [OF _ sub, of level hop rest visited] f by simp
  then show "((adjacency, fold (visitNeighbor level) neighbors (hop, rest, visited)),
        adjacency, hop, (ident, level) # rest, visited)
      \<in> measure (\<lambda>(adjacency, (hop, queue, visited)).
          2 * card (set (concat (map snd adjacency)) - set visited) + length queue)"
    using f by simp
qed

definition hopLabeler :: "string list \<Rightarrow> Graph \<Rightarrow> error + (addr \<times> nat) list" where
  "hopLabeler baseAddresses g =
     (case seedHops baseAddresses (validNodes g) of
        Inl e \<Rightarrow> Inl e
      | Inr s \<Rightarrow> Inr (fst (bfsLoop (adj g) s)))"

section \<open>Cluster finder\<close>

text \<open>
  \<^verbatim>\<open>find\<close> follows parent pointers until a node is its own parent; a node without an
  entry is entered as its own parent first. It changes the map it reads, so it returns
  the root together with the map. On a map with a cycle the source would not return:
  the result is then \<open>None\<close>. The depth of the recursion is not bounded here; an engine
  bounds it by its stack and throws a \<^verbatim>\<open>RangeError\<close> beyond.
\<close>

partial_function (option) uf_find :: "('a \<times> 'a) list \<Rightarrow> 'a \<Rightarrow> ('a \<times> ('a \<times> 'a) list) option" where
  "uf_find parent i =
     (case map_of parent i of
        None \<Rightarrow> Some (i, AList.update i i parent)
      | Some p \<Rightarrow> if p = i then Some (i, parent) else uf_find parent p)"

definition uf_union :: "'a \<Rightarrow> 'a \<Rightarrow> ('a \<times> 'a) list \<Rightarrow> ('a \<times> 'a) list option" where
  "uf_union i j parent =
     (case uf_find parent i of
        None \<Rightarrow> None
      | Some (rootI, p1) \<Rightarrow>
          (case uf_find p1 j of
             None \<Rightarrow> None
           | Some (rootJ, p2) \<Rightarrow>
               Some (if rootI \<noteq> rootJ then AList.update rootI rootJ p2 else p2)))"

fun foldO :: "('a \<Rightarrow> 's \<Rightarrow> 's option) \<Rightarrow> 'a list \<Rightarrow> 's \<Rightarrow> 's option" where
  "foldO f [] s = Some s"
| "foldO f (x # xs) s = (case f x s of None \<Rightarrow> None | Some s' \<Rightarrow> foldO f xs s')"

text \<open>The state of clustering: \<^verbatim>\<open>nodeSet\<close> and \<^verbatim>\<open>parent\<close>.\<close>

definition unionLink :: "Link \<Rightarrow> addr list \<times> (addr \<times> addr) list \<Rightarrow> (addr list \<times> (addr \<times> addr) list) option" where
  "unionLink l s =
     (case s of (nodeSet, parent) \<Rightarrow>
        (case uf_union (lk_source l) (lk_target l) parent of
           None \<Rightarrow> None
         | Some p \<Rightarrow> Some (set_add (lk_target l) (set_add (lk_source l) nodeSet), p)))"

definition addIsolated :: "addr \<Rightarrow> addr list \<times> (addr \<times> addr) list \<Rightarrow> addr list \<times> (addr \<times> addr) list" where
  "addIsolated ident s =
     (case s of (nodeSet, parent) \<Rightarrow>
        if ident \<notin> set nodeSet then (set_add ident nodeSet, AList.update ident ident parent)
        else (nodeSet, parent))"

definition clusters :: "Link list \<Rightarrow> addr list \<Rightarrow> (addr list \<times> (addr \<times> addr) list) option" where
  "clusters ls vnodes =
     (case foldO unionLink ls ([], []) of
        None \<Rightarrow> None
      | Some s \<Rightarrow> Some (fold addIsolated vnodes s))"

definition countStep :: "addr \<Rightarrow> (addr \<times> nat) list \<times> (addr \<times> addr) list \<Rightarrow> ((addr \<times> nat) list \<times> (addr \<times> addr) list) option" where
  "countStep ident s =
     (case s of (componentCounts, parent) \<Rightarrow>
        (case uf_find parent ident of
           None \<Rightarrow> None
         | Some (rt, p) \<Rightarrow>
             Some (AList.update rt ((case map_of componentCounts rt of None \<Rightarrow> 0 | Some n \<Rightarrow> n) + 1)
                     componentCounts, p)))"

section \<open>Node construction\<close>

record AddressNode =
  nd_id :: addr
  nd_balance :: real
  nd_type :: string
  nd_activityScore :: real
  nd_groupId :: nat
  nd_groupSize :: nat
  nd_groupColor :: string
  nd_hop :: "nat option"

text \<open>
  What the memo takes from outside the repository: d3's \<^verbatim>\<open>interpolateSinebow\<close>, the
  local end of day, and \<^verbatim>\<open>Math.random\<close>, whose \<open>n\<close>-th call returns \<open>random n\<close>.
\<close>

record Env =
  colorInterpolator :: "real \<Rightarrow> string"
  endOfDay :: "int \<Rightarrow> int"
  random :: "nat \<Rightarrow> real"

definition DEFAULT_SMALL_GROUP_COLOR :: string where
  "DEFAULT_SMALL_GROUP_COLOR = ''#334155''"

definition GROUP_THRESHOLD :: nat where
  "GROUP_THRESHOLD = 3"

definition goldenRatio :: real where
  "goldenRatio = 618033988749895 / 1000000000000000"

text \<open>
  \<^verbatim>\<open>getNodeType\<close>: the tag of the first label whose address matches without regard to
  case, else a guess from the name. Every path calls \<^verbatim>\<open>id.toLowerCase()\<close>, which throws
  when the id is missing.
\<close>

definition getNodeType :: "addr \<Rightarrow> Label list \<Rightarrow> error + string" where
  "getNodeType ident labels =
     (case ident of
        None \<Rightarrow> Inl TypeError
      | Some s \<Rightarrow>
          (case List.find (\<lambda>l. toLowerCase (lb_address l) = toLowerCase s) labels of
             Some l \<Rightarrow> Inr (lb_tag_type l)
           | None \<Rightarrow>
               if str_includes (toLowerCase s) ''binance'' \<or> str_includes (toLowerCase s) ''kraken''
               then Inr ''exchange''
               else if str_includes (toLowerCase s) ''bridge'' \<or> str_includes (toLowerCase s) ''safe''
               then Inr ''contract''
               else Inr ''wallet''))"

record NodeAcc =
  na_parent :: "(addr \<times> addr) list"
  na_rootColors :: "(addr \<times> string) list"
  na_colorCounter :: real
  na_nodes :: "AddressNode list"

text \<open>
  The body of the node loop. One node is pushed per round and \<^verbatim>\<open>Math.random\<close> is
  called once per pushed node, so the call made for a node has the index
  \<open>length (na_nodes acc)\<close>.
\<close>

definition nodeStep :: "Env \<Rightarrow> Theme \<Rightarrow> Label list \<Rightarrow> (addr \<times> real) list \<Rightarrow> (addr \<times> nat) list
    \<Rightarrow> (addr \<times> nat) list \<Rightarrow> addr \<Rightarrow> NodeAcc \<Rightarrow> (error + NodeAcc) option" where
  "nodeStep env theme labels balances componentCounts hopMap ident acc =
     (case uf_find (na_parent acc) ident of
        None \<Rightarrow> None
      | Some (rt, p) \<Rightarrow>
          (let bal = getOrZero balances ident;
               groupSize = (case map_of componentCounts rt of
                              None \<Rightarrow> 1 | Some n \<Rightarrow> if n = 0 then 1 else n);
               color0 = (if theme = light then DEFAULT_SMALL_GROUP_COLOR else ''#94a3b8'');
               counter1 = (if groupSize > GROUP_THRESHOLD \<and> \<not> map_has (na_rootColors acc) rt
                           then frac (na_colorCounter acc + goldenRatio) else na_colorCounter acc);
               colors1 = (if groupSize > GROUP_THRESHOLD \<and> \<not> map_has (na_rootColors acc) rt
                          then AList.update rt (colorInterpolator env counter1) (na_rootColors acc)
                          else na_rootColors acc);
               color = (if groupSize > GROUP_THRESHOLD
                        then (case map_of colors1 rt of None \<Rightarrow> color0 | Some c \<Rightarrow> c)
                        else color0);
               gid = (if groupSize > GROUP_THRESHOLD then 1 else 0)
           in (case getNodeType ident labels of
                 Inl e \<Rightarrow> Some (Inl e)
               | Inr ty \<Rightarrow>
                   Some (Inr \<lparr>na_parent = p, na_rootColors = colors1, na_colorCounter = counter1,
                              na_nodes = na_nodes acc @
                                [\<lparr>nd_id = ident, nd_balance = bal, nd_type = ty,
                                  nd_activityScore = random env (length (na_nodes acc)),
                                  nd_groupId = gid, nd_groupSize = groupSize,
                                  nd_groupColor = color, nd_hop = map_of hopMap ident\<rparr>]\<rparr>))))"

fun foldOE :: "('a \<Rightarrow> 's \<Rightarrow> (error + 's) option) \<Rightarrow> 'a list \<Rightarrow> 's \<Rightarrow> (error + 's) option" where
  "foldOE f [] s = Some (Inr s)"
| "foldOE f (x # xs) s =
     (case f x s of None \<Rightarrow> None | Some (Inl e) \<Rightarrow> Some (Inl e) | Some (Inr s') \<Rightarrow> foldOE f xs s')"

section \<open>Topology engine\<close>

text \<open>The "related only" test on a node.\<close>

definition isRelated :: "(addr \<times> addr list) list \<Rightarrow> (addr \<times> nat) list \<Rightarrow> AddressNode \<Rightarrow> bool" where
  "isRelated adjacency hopMap n =
     (case nd_hop n of
        None \<Rightarrow> False
      | Some h \<Rightarrow>
          if h = 0 then True
          else if h \<ge> 2 then True
          else if h = 1 then
            (case map_of adjacency (nd_id n) of
               None \<Rightarrow> False
             | Some neighbors \<Rightarrow>
                 list_ex (\<lambda>neighborId. case map_of hopMap neighborId of
                                         None \<Rightarrow> False | Some h' \<Rightarrow> h' > 0) neighbors)
          else False)"

text \<open>
  JavaScript numbers as far as the scale needs them: \<^verbatim>\<open>Math.min()\<close> of no argument is
  \<^verbatim>\<open>Infinity\<close> and \<^verbatim>\<open>Math.max()\<close> of no argument is \<^verbatim>\<open>-Infinity\<close>; \<^verbatim>\<open>x || d\<close> is
  \<open>d\<close> only for a falsy \<open>x\<close>, and of these numbers only zero is falsy. The number of
  arguments that the spread hands to \<^verbatim>\<open>Math.min\<close> and \<^verbatim>\<open>Math.max\<close> is not bounded
  here; an engine bounds it and throws a \<^verbatim>\<open>RangeError\<close> beyond.
\<close>

datatype jsnum = Num real | PosInfinity | NegInfinity

definition Math_min :: "real list \<Rightarrow> jsnum" where
  "Math_min xs = (case xs of [] \<Rightarrow> PosInfinity | y # ys \<Rightarrow> Num (fold min ys y))"

definition Math_max :: "real list \<Rightarrow> jsnum" where
  "Math_max xs = (case xs of [] \<Rightarrow> NegInfinity | y # ys \<Rightarrow> Num (fold max ys y))"

definition orDefault :: "jsnum \<Rightarrow> real \<Rightarrow> jsnum" where
  "orDefault x d = (if x = Num 0 then Num d else x)"

text \<open>
  The scale is made by d3 from a domain, a range and the clamp flag; the memo decides
  these three.
\<close>

record Scale =
  sc_domain :: "jsnum \<times> jsnum"
  sc_range :: "real \<times> real"
  sc_clamp :: bool

definition rScale :: "AddressNode list \<Rightarrow> Scale" where
  "rScale finalNodes =
     (let minBal = orDefault (Math_min (map nd_balance finalNodes)) (1 / 1000);
          maxBal = orDefault (Math_max (map nd_balance finalNodes)) 1
      in \<lparr>sc_domain = (minBal, maxBal), sc_range = (20, 80), sc_clamp = True\<rparr>)"

record Props =
  data :: "Transaction list"
  filters :: Filters
  theme :: Theme
  baseAddresses :: "string list"
  sharedLabels :: "Label list"
  showRelatedOnly :: bool

record Topology =
  nodes :: "AddressNode list"
  links :: "Link list"
  radiusScale :: Scale

definition finish :: "Props \<Rightarrow> Graph \<Rightarrow> (addr \<times> nat) list \<Rightarrow> AddressNode list \<Rightarrow> Topology" where
  "finish props g hopMap computedNodes =
     (let finalNodes = (if showRelatedOnly props
                        then filter (isRelated (adj g) hopMap) computedNodes else computedNodes);
          finalNodeSet = map nd_id finalNodes;
          finalLinks = filter (\<lambda>l. lk_source l \<in> set finalNodeSet \<and> lk_target l \<in> set finalNodeSet)
                              (preFilteredLinks g)
      in \<lparr>nodes = finalNodes, links = finalLinks, radiusScale = rScale finalNodes\<rparr>)"

text \<open>
  The whole memo. \<open>None\<close>: it does not return; \<open>Some (Inl e)\<close>: it throws \<open>e\<close>;
  \<open>Some (Inr t)\<close>: it returns \<open>t\<close>.
\<close>

definition topology :: "Env \<Rightarrow> Props \<Rightarrow> (error + Topology) option" where
  "topology env props =
     (let g = buildGraph (filterData (endOfDay env) (filters props) (data props))
      in case hopLabeler (baseAddresses props) g of
           Inl e \<Rightarrow> Some (Inl e)
         | Inr hopMap \<Rightarrow>
             (case clusters (preFilteredLinks g) (validNodes g) of
                None \<Rightarrow> None
              | Some (nodeSet, parent) \<Rightarrow>
                  (case foldO countStep nodeSet ([], parent) of
                     None \<Rightarrow> None
                   | Some (componentCounts, parent1) \<Rightarrow>
                       (case foldOE (nodeStep env (theme props) (sharedLabels props) (balanceMap g)
                                       componentCounts hopMap) nodeSet
                               \<lparr>na_parent = parent1, na_rootColors = [], na_colorCounter = 0,
                                na_nodes = []\<rparr> of
                          None \<Rightarrow> None
                        | Some (Inl e) \<Rightarrow> Some (Inl e)
                        | Some (Inr acc) \<Rightarrow> Some (Inr (finish props g hopMap (na_nodes acc)))))))"

section \<open>Trace crawler\<close>

datatype Direction = DirBoth | DirFrom | DirTo

text \<open>
  Of \<^verbatim>\<open>traceConfig\<close> the crawl reads the two type switches, the direction and the hop
  count; the network and the date range are only handed to the provider.
\<close>

record TraceConfig =
  includeNative :: bool
  includeERC20 :: bool
  direction :: Direction
  hops :: nat

text \<open>
  \<^verbatim>\<open>fetchAddressHistory\<close> is outside the repository. Within one layer every address
  is asked once, so a provider is a function of the layer and the address asked; its
  promise is fulfilled with a list of transfers (\<open>Inr\<close>) or rejected (\<open>Inl\<close>).
\<close>

type_synonym provider = "nat \<Rightarrow> string \<Rightarrow> error + Transaction list"

text \<open>\<^verbatim>\<open>(x || '')\<close> on an address.\<close>

definition orEmpty :: "addr \<Rightarrow> string" where
  "orEmpty a = (case a of None \<Rightarrow> [] | Some s \<Rightarrow> s)"

text \<open>
  The body of \<^verbatim>\<open>txs.forEach\<close> for one transfer returned for \<open>address\<close>, on
  \<^verbatim>\<open>layerTransactions\<close> and \<^verbatim>\<open>nextFrontier\<close>. \<^verbatim>\<open>sessionVisited\<close> is only read.
\<close>

definition processTx :: "TraceConfig \<Rightarrow> string list \<Rightarrow> string \<Rightarrow> Transaction
    \<Rightarrow> Transaction list \<times> string list \<Rightarrow> Transaction list \<times> string list" where
  "processTx cfg sessionVisited address tx acc =
     (case acc of (layerTransactions, nextFrontier) \<Rightarrow>
        if tx_type tx = native \<and> \<not> includeNative cfg then acc
        else if tx_type tx = erc20 \<and> \<not> includeERC20 cfg then acc
        else
          (let fromAddr = toLowerCase (orEmpty (tx_from tx));
               toAddr = toLowerCase (orEmpty (tx_to tx));
               currentAddr = toLowerCase address;
               isFrom = (fromAddr = currentAddr);
               isTo = (toAddr = currentAddr);
               isValidDirection =
                 (case direction cfg of DirFrom \<Rightarrow> isFrom | DirTo \<Rightarrow> isTo | DirBoth \<Rightarrow> isFrom \<or> isTo);
               neighbor =
                 (case direction cfg of
                    DirFrom \<Rightarrow> if isFrom then tx_to tx else Some []
                  | DirTo \<Rightarrow> if isTo then tx_from tx else Some []
                  | DirBoth \<Rightarrow> if isFrom \<or> isTo then (if isFrom then tx_to tx else tx_from tx)
                               else Some [])
           in if isValidDirection \<and> truthy neighbor
              then (let neighborLower = toLowerCase (orEmpty neighbor)
                    in (layerTransactions @ [tx],
                        if neighborLower \<notin> set sessionVisited
                        then set_add neighborLower nextFrontier else nextFrontier))
              else acc))"

text \<open>
  One address of a batch. A rejected fetch leaves both accumulators as they are:
  \<^verbatim>\<open>Promise.allSettled\<close> waits for it and drops the rejection.
\<close>

definition fetchOne :: "provider \<Rightarrow> TraceConfig \<Rightarrow> nat \<Rightarrow> string list \<Rightarrow> string
    \<Rightarrow> Transaction list \<times> string list \<Rightarrow> Transaction list \<times> string list" where
  "fetchOne prov cfg layer sessionVisited address acc =
     (case prov layer address of
        Inl e \<Rightarrow> acc
      | Inr txs \<Rightarrow> fold (processTx cfg sessionVisited address) txs acc)"

definition BATCH_SIZE :: nat where
  "BATCH_SIZE = 5"

text \<open>The slices \<^verbatim>\<open>currentFrontier.slice(j, j + BATCH_SIZE)\<close> for \<open>j = 0, 5, 10, \<dots>\<close>\<close>

function batches :: "'a list \<Rightarrow> 'a list list" where
  "batches xs = (if xs = [] then [] else take BATCH_SIZE xs # batches (drop BATCH_SIZE xs))"
  by pat_completeness auto
termination
  by (relation "measure length") (auto simp: BATCH_SIZE_def)

declare batches.simps [simp del]

text \<open>
  The state of the layer loop. \<open>cs_layers\<close> is not in the source: it records the
  \<^verbatim>\<open>nextFrontier\<close> of every layer scanned, oldest first. The fetches of a batch settle in
  some order; the model takes the order of the batch.
\<close>

record CrawlState =
  cs_sessionVisited :: "string list"
  cs_currentFrontier :: "string list"
  cs_allNewTransactions :: "Transaction list"
  cs_layers :: "string list list"

definition scanLayer :: "provider \<Rightarrow> TraceConfig \<Rightarrow> nat \<Rightarrow> CrawlState \<Rightarrow> CrawlState" where
  "scanLayer prov cfg layer st =
     (case fold (\<lambda>batch acc. fold (fetchOne prov cfg layer (cs_sessionVisited st)) batch acc)
                (batches (cs_currentFrontier st)) ([], []) of
        (layerTransactions, nextFrontier) \<Rightarrow>
          \<lparr>cs_sessionVisited =
             fold (\<lambda>a sv. set_add (toLowerCase a) sv) (cs_currentFrontier st) (cs_sessionVisited st),
           cs_currentFrontier = nextFrontier,
           cs_allNewTransactions = cs_allNewTransactions st @ layerTransactions,
           cs_layers = cs_layers st @ [nextFrontier]\<rparr>)"

text \<open>
  \<^verbatim>\<open>for (let i = 0; i < traceConfig.hops; i++)\<close>, with the \<^verbatim>\<open>break\<close> on an empty
  frontier; the third argument is the number of rounds left.
\<close>

fun crawlLayers :: "provider \<Rightarrow> TraceConfig \<Rightarrow> nat \<Rightarrow> nat \<Rightarrow> CrawlState \<Rightarrow> CrawlState" where
  "crawlLayers prov cfg i 0 st = st"
| "crawlLayers prov cfg i (Suc n) st =
     (if cs_currentFrontier st = [] then st
      else crawlLayers prov cfg (i + 1) n (scanLayer prov cfg i st))"

text \<open>
  What a call of \<^verbatim>\<open>handleTraceExecution\<close> ends with: the refusal for an empty target
  set, the hand-over of the collected transfers, the report that nothing new was found,
  or the \<^verbatim>\<open>catch\<close> branch.
\<close>

datatype Outcome = Refused | Added "Transaction list" | NoNewData | TraceFailed

record CrawlResult =
  cr_outcome :: Outcome
  cr_tracedAddresses :: "string list"
  cr_layers :: "string list list"

text \<open>
  \<open>onAddData\<close> is the callback of the component: \<open>True\<close> when it returns, \<open>False\<close> when
  it throws. \<^verbatim>\<open>knownAddresses\<close> is filled from \<^verbatim>\<open>t.from.toLowerCase()\<close> and
  \<^verbatim>\<open>t.to.toLowerCase()\<close> of every loaded transfer, which throws on a missing address;
  nothing reads the set afterwards.
\<close>

definition handleTraceExecution :: "provider \<Rightarrow> (Transaction list \<Rightarrow> bool) \<Rightarrow> TraceConfig
    \<Rightarrow> Transaction list \<Rightarrow> string list \<Rightarrow> string list \<Rightarrow> CrawlResult" where
  "handleTraceExecution prov onAddData cfg loaded tracedAddresses traceTargets =
     (if length traceTargets = 0
      then \<lparr>cr_outcome = Refused, cr_tracedAddresses = tracedAddresses, cr_layers = []\<rparr>
      else if list_ex (\<lambda>t. tx_from t = None \<or> tx_to t = None) loaded
      then \<lparr>cr_outcome = TraceFailed, cr_tracedAddresses = tracedAddresses, cr_layers = []\<rparr>
      else
        (let sessionVisited =
               fold (\<lambda>t sv. set_add (toLowerCase t) sv) traceTargets
                 (fold (\<lambda>a sv. set_add (toLowerCase a) sv) tracedAddresses []);
             st = crawlLayers prov cfg 0 (hops cfg)
                    \<lparr>cs_sessionVisited = sessionVisited, cs_currentFrontier = traceTargets,
                     cs_allNewTransactions = [], cs_layers = []\<rparr>
         in if length (cs_allNewTransactions st) > 0
            then (if onAddData (cs_allNewTransactions st)
                  then \<lparr>cr_outcome = Added (cs_allNewTransactions st),
                        cr_tracedAddresses = fold set_add (cs_sessionVisited st) tracedAddresses,
                        cr_layers = cs_layers st\<rparr>
                  else \<lparr>cr_outcome = TraceFailed, cr_tracedAddresses = tracedAddresses,
                        cr_layers = cs_layers st\<rparr>)
            else \<lparr>cr_outcome = NoNewData,
                  cr_tracedAddresses = fold (\<lambda>t sv. set_add (toLowerCase t) sv) traceTargets tracedAddresses,
                  cr_layers = cs_layers st\<rparr>))"

section \<open>Notions used in the statements and proofs\<close>

text \<open>
  \<open>reach E S n v\<close>: some walk of exactly \<open>n\<close> edges of \<open>E\<close> leads from a member of
  \<open>S\<close> to \<open>v\<close>.
\<close>

inductive reach :: "('a \<Rightarrow> 'a \<Rightarrow> bool) \<Rightarrow> 'a set \<Rightarrow> nat \<Rightarrow> 'a \<Rightarrow> bool"
  for E :: "'a \<Rightarrow> 'a \<Rightarrow> bool" and S :: "'a set" where
  reach_base: "s \<in> S \<Longrightarrow> reach E S 0 s"
| reach_step: "reach E S n u \<Longrightarrow> E u v \<Longrightarrow> reach E S (Suc n) v"

code_pred reach .

text \<open>The edges an adjacency map holds.\<close>

definition edgeOf :: "('a \<times> 'a list) list \<Rightarrow> 'a \<Rightarrow> 'a \<Rightarrow> bool" where
  "edgeOf adjacency u v = (case map_of adjacency u of None \<Rightarrow> False | Some nbs \<Rightarrow> v \<in> set nbs)"

text \<open>
  What holds of the search state whenever the loop test is reached: the labelled nodes
  are the visited ones, every label is the true distance, the queue is sorted by level
  and spans at most two levels, every labelled node that has left the queue has all its
  neighbours visited, and every node within the level of the head is visited.
\<close>

definition bfs_inv :: "('a \<Rightarrow> 'a \<Rightarrow> bool) \<Rightarrow> 'a set \<Rightarrow> 'a bfs_state \<Rightarrow> bool" where
  "bfs_inv E S s =
     (case s of (hop, q, vis) \<Rightarrow>
        set vis = dom (map_of hop)
      \<and> S \<subseteq> set vis
      \<and> (\<forall>v l. (v, l) \<in> set q \<longrightarrow> map_of hop v = Some l)
      \<and> (\<forall>v k. map_of hop v = Some k \<longrightarrow> reach E S k v \<and> (\<forall>j. reach E S j v \<longrightarrow> k \<le> j))
      \<and> sorted (map snd q)
      \<and> (\<forall>e\<in>set q. snd e \<le> snd (hd q) + 1)
      \<and> (\<forall>v k. map_of hop v = Some k \<longrightarrow> v \<notin> fst ` set q \<longrightarrow> (\<forall>w. E v w \<longrightarrow> w \<in> set vis))
      \<and> (q \<noteq> [] \<longrightarrow> (\<forall>v j. reach E S j v \<longrightarrow> j \<le> snd (hd q) \<longrightarrow> v \<in> set vis)))"

text \<open>The seeding test, and the state it leaves for a set \<open>T\<close> of seeds.\<close>

definition matches :: "string \<Rightarrow> addr \<Rightarrow> bool" where
  "matches base v = (case v of None \<Rightarrow> False | Some s \<Rightarrow> toLowerCase s = toLowerCase base)"

definition seeded :: "addr set \<Rightarrow> addr bfs_state \<Rightarrow> bool" where
  "seeded T s = (case s of (hop, q, vis) \<Rightarrow>
      set vis = T \<and> (\<forall>v. map_of hop v = (if v \<in> T then Some 0 else None))
    \<and> set q = (\<lambda>v. (v, 0)) ` T)"

text \<open>
  The undirected edges of a transfer list, walks along a relation, the base nodes (the
  nodes whose lower-case form is that of some base address) and the paths from a base
  node to a node.
\<close>

definition undirEdge :: "Transaction list \<Rightarrow> addr \<Rightarrow> addr \<Rightarrow> bool" where
  "undirEdge txs u v =
     (\<exists>t\<in>set txs. (tx_from t = u \<and> tx_to t = v) \<or> (tx_from t = v \<and> tx_to t = u))"

fun walk :: "('a \<Rightarrow> 'a \<Rightarrow> bool) \<Rightarrow> 'a list \<Rightarrow> bool" where
  "walk E [] = True"
| "walk E [v] = True"
| "walk E (u # v # vs) = (E u v \<and> walk E (v # vs))"

definition isBase :: "string list \<Rightarrow> Transaction list \<Rightarrow> addr \<Rightarrow> bool" where
  "isBase bases txs v =
     ((\<exists>t\<in>set txs. tx_from t = v \<or> tx_to t = v)
      \<and> (\<exists>b\<in>set bases. case v of None \<Rightarrow> False | Some s \<Rightarrow> toLowerCase s = toLowerCase b))"

definition hopPath :: "Transaction list \<Rightarrow> string list \<Rightarrow> addr list \<Rightarrow> addr \<Rightarrow> bool" where
  "hopPath txs bases p v =
     (p \<noteq> [] \<and> isBase bases txs (hd p) \<and> last p = v \<and> walk (undirEdge txs) p)"

text \<open>
  The link that a transfer list leaves under a key of the link map: the source and the
  target of the first transfer with this key, and the sum and the number of all
  transfers with this key. \<open>linkStep\<close> is what one transfer does to the entry of a key.
\<close>

definition linkStep :: "string \<Rightarrow> Transaction \<Rightarrow> Link option \<Rightarrow> Link option" where
  "linkStep k tx lo =
     (if linkKey (tx_from tx) (tx_to tx) = k
      then Some (case lo of
                   None \<Rightarrow> \<lparr>lk_source = tx_from tx, lk_target = tx_to tx, lk_value = tx_value tx,
                             lk_count = 1, lk_isBidirectional = False\<rparr>
                 | Some l \<Rightarrow> l\<lparr>lk_value := lk_value l + tx_value tx, lk_count := lk_count l + 1\<rparr>)
      else lo)"

definition linkFor :: "Transaction list \<Rightarrow> string \<Rightarrow> Link option" where
  "linkFor txs k =
     (case filter (\<lambda>t. linkKey (tx_from t) (tx_to t) = k) txs of
        [] \<Rightarrow> None
      | t # ts \<Rightarrow> Some \<lparr>lk_source = tx_from t, lk_target = tx_to t,
                         lk_value = sum_list (map tx_value (t # ts)), lk_count = length (t # ts),
                         lk_isBidirectional = False\<rparr>)"

text \<open>What one transfer adds to the balance of an address.\<close>

definition contribution :: "addr \<Rightarrow> Transaction \<Rightarrow> real" where
  "contribution v t = (if tx_from t = v then tx_value t else 0) + (if tx_to t = v then tx_value t else 0)"

text \<open>
  The parent pointers as a relation from a node to its parent; \<^const>\<open>uf_find\<close> returns
  whenever this relation is well-founded.
\<close>

definition uf_rel :: "('a \<times> 'a) list \<Rightarrow> ('a \<times> 'a) set" where
  "uf_rel parent = {(p, i). map_of parent i = Some p \<and> p \<noteq> i}"




section \<open>Example inputs\<close>

definition transfer :: "string \<Rightarrow> string \<Rightarrow> real \<Rightarrow> Transaction" where
  "transfer a b v = \<lparr>tx_id = [], tx_hash = [], tx_from = Some a, tx_to = Some b, tx_value = v,
     tx_token = None, tx_timestamp = 0, tx_type = native\<rparr>"

definition tokenTransfer :: "string \<Rightarrow> string \<Rightarrow> real \<Rightarrow> string \<Rightarrow> Transaction" where
  "tokenTransfer a b v tok = (transfer a b v)\<lparr>tx_token := Some tok, tx_type := erc20\<rparr>"

definition utcEndOfDay :: "int \<Rightarrow> int" where
  "utcEndOfDay d = d - d mod 86400000 + 86399999"

definition allOf :: "TxType \<Rightarrow> Filters" where
  "allOf ty = \<lparr>activeType = ty, dateStart = None, dateEnd = None, dustThreshold = 0, selectedTokens = []\<rparr>"

text \<open>The three transfers of a triangle.\<close>

definition triangle :: "Transaction list" where
  "triangle = [transfer ''a'' ''b'' 10, transfer ''b'' ''c'' 5, transfer ''c'' ''a'' 3]"

text \<open>Two transfers whose senders differ in letter case only.\<close>

definition mixedCase :: "Transaction list" where
  "mixedCase = [transfer ''a'' ''b'' 1, transfer ''A'' ''c'' 2]"

text \<open>Providers, trace configurations and callbacks used in the examples.\<close>

definition provAB :: provider where
  "provAB layer a = (if a = ''A'' then Inr [transfer ''A'' ''B'' 1] else Inl ProviderError)"

definition provDown :: provider where
  "provDown layer a = Inl ProviderError"

definition provSiblings :: provider where
  "provSiblings layer a =
     (if a = ''a'' then Inr [transfer ''a'' ''b'' 1, transfer ''a'' ''c'' 1]
      else if a = ''b'' then Inr [transfer ''b'' ''c'' 1]
      else Inr [])"

definition traceBoth :: "nat \<Rightarrow> TraceConfig" where
  "traceBoth h = \<lparr>includeNative = True, includeERC20 = True, direction = DirBoth, hops = h\<rparr>"

definition accepting :: "Transaction list \<Rightarrow> bool" where
  "accepting txs = True"

definition throwing :: "Transaction list \<Rightarrow> bool" where
  "throwing txs = False"

text \<open>
  An environment whose \<^verbatim>\<open>Math.random\<close> always returns \<open>r\<close>, the props of a plain view of
  native transfers, a transfer without sender, and the link and the nodes of the graph
  of one transfer.
\<close>

definition plainColor :: "real \<Rightarrow> string" where
  "plainColor x = ''#000000''"

definition constantRandom :: "real \<Rightarrow> nat \<Rightarrow> real" where
  "constantRandom r n = r"

definition steadyEnv :: "real \<Rightarrow> Env" where
  "steadyEnv r = \<lparr>colorInterpolator = plainColor, endOfDay = utcEndOfDay, random = constantRandom r\<rparr>"

definition plainProps :: "Transaction list \<Rightarrow> string list \<Rightarrow> Props" where
  "plainProps txs bases = \<lparr>data = txs, filters = allOf native, theme = light, baseAddresses = bases,
     sharedLabels = [], showRelatedOnly = False\<rparr>"

definition senderless :: Transaction where
  "senderless = (transfer [] ''b'' 1)\<lparr>tx_from := None\<rparr>"


definition walletNode :: "string \<Rightarrow> real \<Rightarrow> AddressNode" where
  "walletNode a score = \<lparr>nd_id = Some a, nd_balance = 1, nd_type = ''wallet'', nd_activityScore = score,
     nd_groupId = 0, nd_groupSize = 2, nd_groupColor = ''#334155'', nd_hop = None\<rparr>"

definition linkUB :: Link where
  "linkUB = \<lparr>lk_source = None, lk_target = Some ''b'', lk_value = 1, lk_count = 1,
              lk_isBidirectional = False\<rparr>"

section \<open>Properties of the filter chain\<close>

lemma fold_tokens_set:
  "set (fold (\<lambda>t tokens. case tx_token t of None \<Rightarrow> tokens
               | Some s \<Rightarrow> if s \<noteq> [] then set_add s tokens else tokens) xs acc)
   = set acc \<union> {s. s \<noteq> [] \<and> (\<exists>t\<in>set xs. tx_token t = Some s)}"
  by (induction xs arbitrary: acc) (auto simp: set_add_def split: option.splits)

lemma set_availableTokens:
  "set (availableTokens loaded ty) =
     {s. s \<noteq> [] \<and> (\<exists>t\<in>set loaded. tx_type t = ty \<and> tx_token t = Some s)}"
  by (auto simp: availableTokens_def fold_tokens_set)

lemma preTokenFilter_subset:
  "t \<in> set (preTokenFilter eod f loaded) \<Longrightarrow> t \<in> set loaded \<and> tx_type t = activeType f"
  by (auto simp: preTokenFilter_def Let_def split: option.splits if_splits)

lemma availableTokens_usdt:
  "availableTokens [tokenTransfer ''a'' ''b'' 1 ''USDT''] erc20 = [''USDT'']"
  by (simp add: availableTokens_def tokenTransfer_def transfer_def set_add_def)

text \<open>
  C3, as the code has it. When some token is available and the selection is empty, the
  token stage falls back to the whole available set: of the transfers that reach it, it
  keeps every one that carries a non-empty token and drops only those without a token.
\<close>

theorem empty_selection_keeps_tokens:
  assumes "availableTokens loaded (activeType f) \<noteq> []" and "selectedTokens f = []"
  shows "filterData eod f loaded = filter (\<lambda>t. truthy (tx_token t)) (preTokenFilter eod f loaded)"
proof -
  have "(case tx_token t of None \<Rightarrow> False
         | Some s \<Rightarrow> s \<noteq> [] \<and> s \<in> set (availableTokens loaded (activeType f))) = truthy (tx_token t)"
    if "t \<in> set (preTokenFilter eod f loaded)" for t
    using preTokenFilter_subset [OF that]
    by (auto simp: set_availableTokens truthy_def split: option.splits)
  then show ?thesis
    using assms by (simp add: filterData_def tokenFilter_def cong: filter_cong)
qed

text \<open>C3 as amended, on one \<^verbatim>\<open>USDT\<close> transfer with nothing selected.\<close>

theorem empty_selection_keeps_tokens_witness:
  "availableTokens [tokenTransfer ''a'' ''b'' 1 ''USDT''] (activeType (allOf erc20)) \<noteq> []
   \<and> selectedTokens (allOf erc20) = []
   \<and> filterData utcEndOfDay (allOf erc20) [tokenTransfer ''a'' ''b'' 1 ''USDT'']
       = [tokenTransfer ''a'' ''b'' 1 ''USDT'']"
proof -
  have a: "activeType (allOf erc20) = erc20" and s: "selectedTokens (allOf erc20) = []"
    by (simp_all add: allOf_def)
  have p: "filter (\<lambda>t. truthy (tx_token t))
             (preTokenFilter utcEndOfDay (allOf erc20) [tokenTransfer ''a'' ''b'' 1 ''USDT''])
           = [tokenTransfer ''a'' ''b'' 1 ''USDT'']"
    by (simp add: allOf_def preTokenFilter_def truthy_def tokenTransfer_def transfer_def)
  show ?thesis
    using empty_selection_keeps_tokens [of "[tokenTransfer ''a'' ''b'' 1 ''USDT'']" "allOf erc20" utcEndOfDay]
    unfolding a availableTokens_usdt p s by simp
qed

text \<open>
  C3, as the claim states it, fails: with the token \<^verbatim>\<open>USDT\<close> available and nothing
  selected, the token stage keeps the \<^verbatim>\<open>USDT\<close> transfer.
\<close>

theorem empty_selection_counterexample:
  "availableTokens [tokenTransfer ''a'' ''b'' 1 ''USDT''] erc20 \<noteq> []
   \<and> tokenFilter (availableTokens [tokenTransfer ''a'' ''b'' 1 ''USDT''] erc20) []
        [tokenTransfer ''a'' ''b'' 1 ''USDT''] = [tokenTransfer ''a'' ''b'' 1 ''USDT'']"
  unfolding availableTokens_usdt by (simp add: tokenFilter_def tokenTransfer_def transfer_def)

section \<open>Properties of strings and containers\<close>

lemma lower_A: "toLowerCase ''A'' = ''a''" by (simp add: toLowerCase_def lowerChar_def char_of_def bit_Suc_0_iff)
lemma lower_B: "toLowerCase ''B'' = ''b''" by (simp add: toLowerCase_def lowerChar_def char_of_def bit_Suc_0_iff)
lemma lower_a: "toLowerCase ''a'' = ''a''" by (simp add: toLowerCase_def lowerChar_def char_of_def bit_Suc_0_iff)
lemma lower_b: "toLowerCase ''b'' = ''b''" by (simp add: toLowerCase_def lowerChar_def char_of_def bit_Suc_0_iff)
lemma lower_c: "toLowerCase ''c'' = ''c''" by (simp add: toLowerCase_def lowerChar_def char_of_def bit_Suc_0_iff)
lemma lower_nil: "toLowerCase [] = []" by (simp add: toLowerCase_def)

lemma lowerChar_idem: "lowerChar (lowerChar c) = lowerChar c"
  by (simp add: lowerChar_def)

lemma toLowerCase_idem: "toLowerCase (toLowerCase s) = toLowerCase s"
  by (simp add: toLowerCase_def lowerChar_idem)

lemma set_set_add: "set (set_add x xs) = insert x (set xs)"
  by (auto simp: set_add_def)

lemma set_fold_set_add: "set (fold set_add xs ys) = set xs \<union> set ys"
  by (induction xs arbitrary: ys) (auto simp: set_add_def)

lemma set_fold_add_lower:
  "set (fold (\<lambda>a sv. set_add (toLowerCase a) sv) xs ys) = toLowerCase ` set xs \<union> set ys"
  by (induction xs arbitrary: ys) (auto simp: set_add_def)

section \<open>Properties of the trace crawler\<close>

text \<open>Cutting the frontier into batches does not change what the layer computes.\<close>

lemma fold_batches:
  "fold (\<lambda>batch acc. fold f batch acc) (batches xs) acc = fold f xs acc"
proof (induction xs arbitrary: acc rule: batches.induct)
  case (1 xs)
  show ?case
  proof (cases "xs = []")
    case True
    then show ?thesis by (subst batches.simps) simp
  next
    case False
    have "fold f xs acc = fold f (take BATCH_SIZE xs @ drop BATCH_SIZE xs) acc" by simp
    also have "\<dots> = fold f (drop BATCH_SIZE xs) (fold f (take BATCH_SIZE xs) acc)"
      by (simp only: fold_append comp_def)
    finally show ?thesis
      using False 1 by (subst batches.simps) simp
  qed
qed

lemma scanLayer_fold:
  "scanLayer prov cfg layer st =
     (case fold (fetchOne prov cfg layer (cs_sessionVisited st)) (cs_currentFrontier st) ([], []) of
        (layerTransactions, nextFrontier) \<Rightarrow>
          \<lparr>cs_sessionVisited =
             fold (\<lambda>a sv. set_add (toLowerCase a) sv) (cs_currentFrontier st) (cs_sessionVisited st),
           cs_currentFrontier = nextFrontier,
           cs_allNewTransactions = cs_allNewTransactions st @ layerTransactions,
           cs_layers = cs_layers st @ [nextFrontier]\<rparr>)"
  by (simp add: scanLayer_def fold_batches)

lemma crawlLayers_empty_frontier:
  "cs_currentFrontier st = [] \<Longrightarrow> crawlLayers prov cfg i n st = st"
  by (cases n) simp_all

lemma scanLayer_visited:
  "set (cs_sessionVisited (scanLayer prov cfg layer st))
     = toLowerCase ` set (cs_currentFrontier st) \<union> set (cs_sessionVisited st)"
  by (simp add: scanLayer_fold set_fold_add_lower split: prod.splits)

lemma crawlLayers_lowered:
  "\<forall>a\<in>set (cs_sessionVisited st). toLowerCase a = a
   \<Longrightarrow> \<forall>a\<in>set (cs_sessionVisited (crawlLayers prov cfg i n st)). toLowerCase a = a"
proof (induction n arbitrary: i st)
  case 0
  then show ?case by simp
next
  case (Suc n)
  have "\<forall>a\<in>set (cs_sessionVisited (scanLayer prov cfg i st)). toLowerCase a = a"
    using Suc.prems by (auto simp: scanLayer_visited toLowerCase_idem)
  then show ?case using Suc by simp
qed

text \<open>
  C10. A call of the crawl only adds to \<^verbatim>\<open>tracedAddresses\<close>: nothing is removed, every
  address added is in lower case, and a call that ends in the \<^verbatim>\<open>catch\<close> branch leaves
  the set as it was.
\<close>

theorem traced_only_grows:
  assumes "r = handleTraceExecution prov onAddData cfg loaded tracedAddresses traceTargets"
  shows "set tracedAddresses \<subseteq> set (cr_tracedAddresses r)
       \<and> (\<forall>a \<in> set (cr_tracedAddresses r) - set tracedAddresses. toLowerCase a = a)
       \<and> (cr_outcome r = TraceFailed \<longrightarrow> cr_tracedAddresses r = tracedAddresses)"
proof -
  define sv where "sv = fold (\<lambda>t sv. set_add (toLowerCase t) sv) traceTargets
                 (fold (\<lambda>a sv. set_add (toLowerCase a) sv) tracedAddresses [])"
  define st where "st = crawlLayers prov cfg 0 (hops cfg)
                    \<lparr>cs_sessionVisited = sv, cs_currentFrontier = traceTargets,
                     cs_allNewTransactions = [], cs_layers = []\<rparr>"
  have "\<forall>a\<in>set sv. toLowerCase a = a"
    by (auto simp: sv_def set_fold_add_lower toLowerCase_idem)
  then have low: "\<forall>a\<in>set (cs_sessionVisited st). toLowerCase a = a"
    unfolding st_def by (intro crawlLayers_lowered) simp
  consider (refused) "length traceTargets = 0"
    | (known) "length traceTargets \<noteq> 0" "list_ex (\<lambda>t. tx_from t = None \<or> tx_to t = None) loaded"
    | (added) "length traceTargets \<noteq> 0" "\<not> list_ex (\<lambda>t. tx_from t = None \<or> tx_to t = None) loaded"
        "length (cs_allNewTransactions st) > 0" "onAddData (cs_allNewTransactions st)"
    | (thrown) "length traceTargets \<noteq> 0" "\<not> list_ex (\<lambda>t. tx_from t = None \<or> tx_to t = None) loaded"
        "length (cs_allNewTransactions st) > 0" "\<not> onAddData (cs_allNewTransactions st)"
    | (nothing) "length traceTargets \<noteq> 0" "\<not> list_ex (\<lambda>t. tx_from t = None \<or> tx_to t = None) loaded"
        "\<not> length (cs_allNewTransactions st) > 0"
    by blast
  then show ?thesis
  proof cases
    case refused
    then show ?thesis by (simp add: assms handleTraceExecution_def)
  next
    case known
    then show ?thesis by (simp add: assms handleTraceExecution_def)
  next
    case added
    then have "r = \<lparr>cr_outcome = Added (cs_allNewTransactions st),
                    cr_tracedAddresses = fold set_add (cs_sessionVisited st) tracedAddresses,
                    cr_layers = cs_layers st\<rparr>"
      by (simp add: assms handleTraceExecution_def Let_def flip: sv_def st_def)
    then show ?thesis using low by (auto simp: set_fold_set_add)
  next
    case thrown
    then have "r = \<lparr>cr_outcome = TraceFailed, cr_tracedAddresses = tracedAddresses,
                    cr_layers = cs_layers st\<rparr>"
      by (simp add: assms handleTraceExecution_def Let_def flip: sv_def st_def)
    then show ?thesis by simp
  next
    case nothing
    then have "r = \<lparr>cr_outcome = NoNewData,
                    cr_tracedAddresses = fold (\<lambda>t sv. set_add (toLowerCase t) sv) traceTargets tracedAddresses,
                    cr_layers = cs_layers st\<rparr>"
      by (simp add: assms handleTraceExecution_def Let_def flip: sv_def st_def)
    then show ?thesis by (auto simp: set_fold_add_lower toLowerCase_idem)
  qed
qed

text \<open>
  C10 at two crawls from \<^verbatim>\<open>A\<close> with \<^verbatim>\<open>x\<close> already traced, whose provider returns
  the transfer from \<^verbatim>\<open>A\<close> to \<^verbatim>\<open>B\<close>: where the callback returns, \<^verbatim>\<open>a\<close> is added;
  where it throws, the crawl fails and the set stays \<open>{x}\<close>.
\<close>

theorem traced_only_grows_witness:
  "cr_tracedAddresses (handleTraceExecution provAB accepting (traceBoth 1) [] [''x''] [''A'']) = [''x'', ''a'']
   \<and> set [''x''] \<subseteq> set (cr_tracedAddresses (handleTraceExecution provAB accepting (traceBoth 1) [] [''x''] [''A'']))
   \<and> toLowerCase ''a'' = ''a''
   \<and> cr_outcome (handleTraceExecution provAB throwing (traceBoth 1) [] [''x''] [''A'']) = TraceFailed
   \<and> cr_tracedAddresses (handleTraceExecution provAB throwing (traceBoth 1) [] [''x''] [''A'']) = [''x'']"
proof -
  have x: "toLowerCase ''x'' = ''x''"
    by (simp add: toLowerCase_def lowerChar_def char_of_def bit_Suc_0_iff)
  have ok: "cr_tracedAddresses (handleTraceExecution provAB accepting (traceBoth 1) [] [''x''] [''A''])
      = [''x'', ''a'']"
    by (simp add: handleTraceExecution_def traceBoth_def accepting_def scanLayer_fold
        fetchOne_def provAB_def processTx_def transfer_def orEmpty_def truthy_def set_add_def
        lower_A lower_B lower_nil x Let_def)
  have thrown: "cr_outcome (handleTraceExecution provAB throwing (traceBoth 1) [] [''x''] [''A'']) = TraceFailed"
    by (simp add: handleTraceExecution_def traceBoth_def throwing_def scanLayer_fold
        fetchOne_def provAB_def processTx_def transfer_def orEmpty_def truthy_def set_add_def
        lower_A lower_B lower_nil x Let_def)
  show ?thesis
    using traced_only_grows [OF refl, where prov = provAB and onAddData = accepting
        and cfg = "traceBoth 1" and loaded = "[]" and tracedAddresses = "[''x'']" and traceTargets = "[''A'']"]
      traced_only_grows [OF refl, where prov = provAB and onAddData = throwing
        and cfg = "traceBoth 1" and loaded = "[]" and tracedAddresses = "[''x'']" and traceTargets = "[''A'']"]
    unfolding ok thrown by simp
qed

lemma fold_fetchOne_down:
  assumes "\<forall>a. \<exists>e. prov layer a = Inl e"
  shows "fold (fetchOne prov cfg layer sv) xs acc = acc"
proof (induction xs)
  case Nil
  then show ?case by simp
next
  case (Cons x xs)
  obtain e where "prov layer x = Inl e" using assms by blast
  then show ?case using Cons by (simp add: fetchOne_def)
qed

lemma fold_fetchOne_nothing:
  "fold (fetchOne (\<lambda>layer a. Inr []) cfg layer sv) xs acc = acc"
  by (induction xs) (simp_all add: fetchOne_def)

lemma scanLayer_down:
  assumes "\<forall>a. \<exists>e. prov layer a = Inl e"
  shows "scanLayer prov cfg layer st = scanLayer (\<lambda>layer a. Inr []) cfg layer st"
  using fold_fetchOne_down [where prov = prov and layer = layer, OF assms]
  by (simp add: scanLayer_fold fold_fetchOne_nothing)

lemma scanLayer_nothing:
  "cs_currentFrontier (scanLayer (\<lambda>layer a. Inr []) cfg layer st) = []
   \<and> cs_allNewTransactions (scanLayer (\<lambda>layer a. Inr []) cfg layer st) = cs_allNewTransactions st"
  by (simp add: scanLayer_fold fold_fetchOne_nothing)

lemma crawlLayers_down:
  assumes "\<forall>layer a. \<exists>e. prov layer a = Inl e"
  shows "crawlLayers prov cfg i n st = crawlLayers (\<lambda>layer a. Inr []) cfg i n st"
proof (cases n)
  case 0
  then show ?thesis by simp
next
  case (Suc m)
  have "\<forall>a. \<exists>e. prov i a = Inl e" using assms by blast
  then show ?thesis
    using Suc by (simp add: scanLayer_down crawlLayers_empty_frontier scanLayer_nothing)
qed

lemma crawlLayers_nothing:
  "cs_allNewTransactions (crawlLayers (\<lambda>layer a. Inr []) cfg i n st) = cs_allNewTransactions st"
  by (cases n) (simp_all add: crawlLayers_empty_frontier scanLayer_nothing)

text \<open>
  C5, as the code has it. When every fetch is rejected, the rejections are dropped one
  by one and the crawl ends as a crawl does whose provider answers every address with
  an empty list: it reports that no new data was found and commits the targets.
\<close>

theorem outage_reported_as_no_new_data:
  assumes "\<forall>layer a. \<exists>e. prov layer a = Inl e"
    and "traceTargets \<noteq> []"
    and "\<not> list_ex (\<lambda>t. tx_from t = None \<or> tx_to t = None) loaded"
  shows "handleTraceExecution prov onAddData cfg loaded tracedAddresses traceTargets
           = handleTraceExecution (\<lambda>layer a. Inr []) onAddData cfg loaded tracedAddresses traceTargets
       \<and> cr_outcome (handleTraceExecution prov onAddData cfg loaded tracedAddresses traceTargets) = NoNewData
       \<and> cr_tracedAddresses (handleTraceExecution prov onAddData cfg loaded tracedAddresses traceTargets)
           = fold (\<lambda>t sv. set_add (toLowerCase t) sv) traceTargets tracedAddresses"
  using assms(2,3)
  by (simp add: handleTraceExecution_def crawlLayers_down [OF assms(1)] crawlLayers_nothing Let_def)

text \<open>C5 as amended, at a provider that rejects every fetch.\<close>

theorem outage_reported_as_no_new_data_witness:
  "handleTraceExecution provDown accepting (traceBoth 1) [] [] [''A'']
           = handleTraceExecution (\<lambda>layer a. Inr []) accepting (traceBoth 1) [] [] [''A'']
       \<and> cr_outcome (handleTraceExecution provDown accepting (traceBoth 1) [] [] [''A'']) = NoNewData
       \<and> cr_tracedAddresses (handleTraceExecution provDown accepting (traceBoth 1) [] [] [''A''])
           = fold (\<lambda>t sv. set_add (toLowerCase t) sv) [''A''] []"
  by (rule outage_reported_as_no_new_data) (simp_all add: provDown_def)

text \<open>
  C5, as the claim states it, fails: with a provider that rejects every fetch the crawl
  ends with the report of no new data, not with a failure.
\<close>

theorem outage_counterexample:
  "provDown 0 ''A'' = Inl ProviderError
   \<and> handleTraceExecution provDown accepting (traceBoth 1) [] [] [''A'']
     = \<lparr>cr_outcome = NoNewData, cr_tracedAddresses = [''a''], cr_layers = [[]]\<rparr>"
  by (simp add: handleTraceExecution_def traceBoth_def accepting_def scanLayer_fold
      fetchOne_def provDown_def set_add_def lower_A Let_def)

lemma processTx_grows:
  "set (fst acc) \<subseteq> set (fst (processTx cfg sv a tx acc))
   \<and> set (snd acc) \<subseteq> set (snd (processTx cfg sv a tx acc))
   \<and> set (snd (processTx cfg sv a tx acc)) \<subseteq> set (snd acc) \<union> - set sv"
  by (cases acc) (auto simp: processTx_def Let_def set_add_def)

lemma fold_processTx_grows:
  "set (fst acc) \<subseteq> set (fst (fold (processTx cfg sv a) txs acc))
   \<and> set (snd acc) \<subseteq> set (snd (fold (processTx cfg sv a) txs acc))
   \<and> set (snd (fold (processTx cfg sv a) txs acc)) \<subseteq> set (snd acc) \<union> - set sv"
proof (induction txs arbitrary: acc)
  case Nil
  then show ?case by simp
next
  case (Cons t ts)
  show ?case
    using Cons.IH [of "processTx cfg sv a t acc"] processTx_grows [of acc cfg sv a t]
    by auto
qed

lemma processTx_sender:
  assumes "direction cfg = DirBoth" "tx_from tx = Some a" "tx_to tx = Some b" "b \<noteq> []"
    "tx_type tx = native \<longrightarrow> includeNative cfg" "tx_type tx = erc20 \<longrightarrow> includeERC20 cfg"
  shows "processTx cfg sv a tx (lt, nf) =
           (lt @ [tx], if toLowerCase b \<notin> set sv then set_add (toLowerCase b) nf else nf)"
  using assms by (simp add: processTx_def Let_def orEmpty_def truthy_def)

lemma fold_processTx_sender:
  assumes "direction cfg = DirBoth" "tx_from tx = Some a" "tx_to tx = Some b" "b \<noteq> []"
    "tx_type tx = native \<longrightarrow> includeNative cfg" "tx_type tx = erc20 \<longrightarrow> includeERC20 cfg"
    "tx \<in> set txs"
  shows "tx \<in> set (fst (fold (processTx cfg sv a) txs acc))
       \<and> (toLowerCase b \<notin> set sv \<longrightarrow> toLowerCase b \<in> set (snd (fold (processTx cfg sv a) txs acc)))"
proof -
  obtain pre post where txs: "txs = pre @ tx # post"
    using assms(7) by (meson split_list)
  obtain lt nf where mid: "fold (processTx cfg sv a) pre acc = (lt, nf)"
    by (cases "fold (processTx cfg sv a) pre acc") auto
  let ?step = "(lt @ [tx], if toLowerCase b \<notin> set sv then set_add (toLowerCase b) nf else nf)"
  have "fold (processTx cfg sv a) txs acc = fold (processTx cfg sv a) post ?step"
    using processTx_sender [OF assms(1-6), of sv lt nf] by (simp add: txs mid)
  moreover have "tx \<in> set (fst ?step)" by simp
  moreover have "toLowerCase b \<notin> set sv \<longrightarrow> toLowerCase b \<in> set (snd ?step)"
    by (simp add: set_add_def)
  ultimately show ?thesis
    using fold_processTx_grows [of ?step cfg sv a post] by auto
qed

text \<open>
  C6, as the code has it. In a crawl of one hop from the single target \<open>a\<close> with
  direction both, a transfer from \<open>a\<close> to \<open>b\<close> returned for \<open>a\<close> is collected; the
  lower-case \<open>b\<close> is in the next frontier exactly when the session has not visited it;
  and \<^verbatim>\<open>tracedAddresses\<close> gains the lower-case forms of its old members and of \<open>a\<close>,
  the address asked, but not \<open>b\<close>, which was found and not asked.
\<close>

theorem one_hop_frontier:
  assumes "hops cfg = 1" and "direction cfg = DirBoth"
    and "prov 0 a = Inr txs" and "tx \<in> set txs"
    and "tx_from tx = Some a" and "tx_to tx = Some b" and "b \<noteq> []"
    and "tx_type tx = native \<longrightarrow> includeNative cfg"
    and "tx_type tx = erc20 \<longrightarrow> includeERC20 cfg"
    and "\<not> list_ex (\<lambda>t. tx_from t = None \<or> tx_to t = None) loaded"
    and "\<forall>xs. onAddData xs"
    and "r = handleTraceExecution prov onAddData cfg loaded tracedAddresses [a]"
  shows "\<exists>collected nextFrontier.
           cr_outcome r = Added collected \<and> tx \<in> set collected
         \<and> cr_layers r = [nextFrontier]
         \<and> (toLowerCase b \<in> set nextFrontier
              \<longleftrightarrow> toLowerCase b \<notin> toLowerCase ` set tracedAddresses \<union> {toLowerCase a})
         \<and> set (cr_tracedAddresses r)
             = set tracedAddresses \<union> toLowerCase ` set tracedAddresses \<union> {toLowerCase a}"
proof -
  define sv where "sv = set_add (toLowerCase a)
                 (fold (\<lambda>a sv. set_add (toLowerCase a) sv) tracedAddresses [])"
  have sv: "set sv = toLowerCase ` set tracedAddresses \<union> {toLowerCase a}"
    by (auto simp: sv_def set_fold_add_lower set_set_add)
  obtain lt nf where f: "fold (processTx cfg sv a) txs ([], []) = (lt, nf)"
    by (cases "fold (processTx cfg sv a) txs ([], [])") auto
  have in_lt: "tx \<in> set lt" and in_nf: "toLowerCase b \<notin> set sv \<longrightarrow> toLowerCase b \<in> set nf"
    using fold_processTx_sender [OF assms(2,5,6,7,8,9,4), of sv "([], [])"] f by simp_all
  have guard: "set nf \<subseteq> - set sv"
    using fold_processTx_grows [of "([], [])" cfg sv a txs] f by simp
  have st: "crawlLayers prov cfg 0 (hops cfg)
              \<lparr>cs_sessionVisited = sv, cs_currentFrontier = [a],
               cs_allNewTransactions = [], cs_layers = []\<rparr>
            = \<lparr>cs_sessionVisited = set_add (toLowerCase a) sv, cs_currentFrontier = nf,
               cs_allNewTransactions = lt, cs_layers = [nf]\<rparr>"
    using assms(1,3) f by (simp add: scanLayer_fold fetchOne_def)
  have r: "r = \<lparr>cr_outcome = Added lt,
                cr_tracedAddresses = fold set_add (set_add (toLowerCase a) sv) tracedAddresses,
                cr_layers = [nf]\<rparr>"
  proof -
    have "lt \<noteq> []" using in_lt by auto
    then show ?thesis
      using assms(10,11) unfolding assms(12) handleTraceExecution_def Let_def
      by (simp add: st flip: sv_def)
  qed
  have "set (cr_tracedAddresses r)
          = set tracedAddresses \<union> toLowerCase ` set tracedAddresses \<union> {toLowerCase a}"
    unfolding r by (auto simp: set_fold_set_add set_set_add sv)
  moreover have "toLowerCase b \<in> set nf
      \<longleftrightarrow> toLowerCase b \<notin> toLowerCase ` set tracedAddresses \<union> {toLowerCase a}"
    using in_nf guard unfolding sv by auto
  ultimately show ?thesis using in_lt r by simp
qed

text \<open>C6 as amended, at the crawl from \<^verbatim>\<open>A\<close> with the transfer from \<^verbatim>\<open>A\<close> to \<^verbatim>\<open>B\<close>.\<close>

theorem one_hop_frontier_witness:
  "\<exists>collected nextFrontier.
      cr_outcome (handleTraceExecution provAB accepting (traceBoth 1) [] [] [''A'']) = Added collected
    \<and> transfer ''A'' ''B'' 1 \<in> set collected
    \<and> cr_layers (handleTraceExecution provAB accepting (traceBoth 1) [] [] [''A'']) = [nextFrontier]
    \<and> (toLowerCase ''B'' \<in> set nextFrontier
              \<longleftrightarrow> toLowerCase ''B'' \<notin> toLowerCase ` set [] \<union> {toLowerCase ''A''})
    \<and> set (cr_tracedAddresses (handleTraceExecution provAB accepting (traceBoth 1) [] [] [''A'']))
             = set [] \<union> toLowerCase ` set [] \<union> {toLowerCase ''A''}"
  by (rule one_hop_frontier [where prov = provAB and txs = "[transfer ''A'' ''B'' 1]"])
     (simp_all add: traceBoth_def provAB_def transfer_def accepting_def)

text \<open>
  C6, as the claim states it, fails: after that crawl \<^verbatim>\<open>tracedAddresses\<close> is \<open>{a}\<close>
  and holds \<^verbatim>\<open>B\<close> in neither case.
\<close>

theorem one_hop_traced_counterexample:
  "provAB 0 ''A'' = Inr [transfer ''A'' ''B'' 1]
   \<and> handleTraceExecution provAB accepting (traceBoth 1) [] [] [''A'']
    = \<lparr>cr_outcome = Added [transfer ''A'' ''B'' 1], cr_tracedAddresses = [''a''], cr_layers = [[''b'']]\<rparr>
   \<and> ''B'' \<notin> set [''a''] \<and> toLowerCase ''B'' \<notin> set [''a'']"
  by (simp add: handleTraceExecution_def traceBoth_def accepting_def scanLayer_fold
      fetchOne_def provAB_def processTx_def transfer_def orEmpty_def truthy_def set_add_def
      lower_A lower_B lower_nil Let_def)

text \<open>
  C7 at a crawl of two hops from \<^verbatim>\<open>a\<close>, where \<^verbatim>\<open>a\<close> sent to \<^verbatim>\<open>b\<close> and to \<^verbatim>\<open>c\<close> and
  \<^verbatim>\<open>b\<close> sent to \<^verbatim>\<open>c\<close>: the address \<^verbatim>\<open>c\<close>, found in the first layer, is put into
  the frontier again by the second, because the frontier being scanned joins
  \<^verbatim>\<open>sessionVisited\<close> only after its layer.
\<close>

theorem sibling_readded_to_frontier:
  "cr_layers (handleTraceExecution provSiblings accepting (traceBoth 2) [] [] [''a''])
    = [[''b'', ''c''], [''c'']]"
  by (simp add: handleTraceExecution_def traceBoth_def accepting_def scanLayer_fold
      fetchOne_def provSiblings_def processTx_def transfer_def orEmpty_def truthy_def set_add_def
      lower_a lower_b lower_c lower_nil numeral_2_eq_2 Let_def)

section \<open>Properties of the graph builder\<close>

lemma map_has_iff: "map_has m k \<longleftrightarrow> map_of m k \<noteq> None"
  by (simp add: map_has_def map_of_eq_None_iff)

lemma addTransfer_edge:
  "edgeOf (adj (addTransfer tx g)) u v \<longleftrightarrow>
     edgeOf (adj g) u v \<or> (u = tx_from tx \<and> v = tx_to tx) \<or> (u = tx_to tx \<and> v = tx_from tx)"
  by (auto simp: addTransfer_def Let_def edgeOf_def map_has_iff map_of_map_entry update_conv'
        set_add_def split: option.splits if_splits)

lemma addTransfer_nodes:
  "set (validNodes (addTransfer tx g)) = set (validNodes g) \<union> {tx_from tx, tx_to tx}"
  by (auto simp: addTransfer_def Let_def validNodes_def map_keys_def update_keys)

lemma fold_addTransfer_edge:
  "edgeOf (adj (fold addTransfer txs g)) u v \<longleftrightarrow> edgeOf (adj g) u v \<or> undirEdge txs u v"
  by (induction txs arbitrary: g) (auto simp: addTransfer_edge undirEdge_def)

lemma fold_addTransfer_nodes:
  "set (validNodes (fold addTransfer txs g))
     = set (validNodes g) \<union> tx_from ` set txs \<union> tx_to ` set txs"
  by (induction txs arbitrary: g) (auto simp: addTransfer_nodes)

lemma buildGraph_edge: "edgeOf (adj (buildGraph txs)) = undirEdge txs"
proof (intro ext)
  fix u v
  have "\<not> edgeOf (adj \<lparr>balanceMap = [], adj = [], linkMap = []\<rparr>) u v"
    by (simp add: edgeOf_def)
  then show "edgeOf (adj (buildGraph txs)) u v = undirEdge txs u v"
    unfolding buildGraph_def fold_addTransfer_edge by simp
qed

lemma buildGraph_nodes: "set (validNodes (buildGraph txs)) = tx_from ` set txs \<union> tx_to ` set txs"
proof -
  have "set (validNodes \<lparr>balanceMap = [], adj = [], linkMap = []\<rparr>) = {}"
    by (simp add: validNodes_def map_keys_def)
  then show ?thesis unfolding buildGraph_def fold_addTransfer_nodes by simp
qed

lemma triangle_graph:
  "buildGraph triangle =
     \<lparr>balanceMap = [(Some ''a'', 13), (Some ''b'', 15), (Some ''c'', 8)],
      adj = [(Some ''a'', [Some ''b'', Some ''c'']), (Some ''b'', [Some ''a'', Some ''c'']),
             (Some ''c'', [Some ''b'', Some ''a''])],
      linkMap = [(''a-b'', \<lparr>lk_source = Some ''a'', lk_target = Some ''b'', lk_value = 10, lk_count = 1, lk_isBidirectional = False\<rparr>),
                 (''b-c'', \<lparr>lk_source = Some ''b'', lk_target = Some ''c'', lk_value = 5, lk_count = 1, lk_isBidirectional = False\<rparr>),
                 (''c-a'', \<lparr>lk_source = Some ''c'', lk_target = Some ''a'', lk_value = 3, lk_count = 1, lk_isBidirectional = False\<rparr>)]\<rparr>"
  by (simp add: buildGraph_def triangle_def transfer_def addTransfer_def Let_def getOrZero_def
      map_has_def set_add_def linkKey_def str_def)

section \<open>Properties of the hop labeler\<close>

lemma reach_0: "reach E S 0 v \<longleftrightarrow> v \<in> S"
  by (auto elim: reach.cases intro: reach_base)

lemma reach_Suc: "reach E S (Suc n) v \<longleftrightarrow> (\<exists>u. reach E S n u \<and> E u v)"
  by (auto elim: reach.cases intro: reach_step)

lemma fold_visit:
  "\<exists>new. fold (visitNeighbor l) nbs (hop, q, vis) =
       (fold (\<lambda>w h. AList.update w (l + 1) h) new hop, q @ map (\<lambda>w. (w, l + 1)) new, vis @ new)
     \<and> set new = set nbs - set vis \<and> distinct new"
proof (induction nbs arbitrary: hop q vis)
  case Nil
  show ?case by (rule exI [of _ "[]"]) simp
next
  case (Cons x xs)
  show ?case
  proof (cases "x \<in> set vis")
    case True
    obtain new where "fold (visitNeighbor l) xs (hop, q, vis) =
       (fold (\<lambda>w h. AList.update w (l + 1) h) new hop, q @ map (\<lambda>w. (w, l + 1)) new, vis @ new)"
      "set new = set xs - set vis" "distinct new"
      using Cons.IH [of hop q vis] by blast
    then show ?thesis using True by (intro exI [of _ new]) (auto simp: visitNeighbor_apply)
  next
    case False
    obtain new where n: "fold (visitNeighbor l) xs (AList.update x (l + 1) hop, q @ [(x, l + 1)], vis @ [x]) =
       (fold (\<lambda>w h. AList.update w (l + 1) h) new (AList.update x (l + 1) hop),
        (q @ [(x, l + 1)]) @ map (\<lambda>w. (w, l + 1)) new, (vis @ [x]) @ new)"
      "set new = set xs - set (vis @ [x])" "distinct new"
      using Cons.IH [of "AList.update x (l + 1) hop" "q @ [(x, l + 1)]" "vis @ [x]"] by blast
    show ?thesis
      using False n by (intro exI [of _ "x # new"]) (auto simp: visitNeighbor_apply set_add_def)
  qed
qed

lemma map_of_fold_update:
  "map_of (fold (\<lambda>w h. AList.update w c h) new hop) v = (if v \<in> set new then Some c else map_of hop v)"
  by (induction new arbitrary: hop) (auto simp: update_conv')

lemma sorted_map_level: "sorted (map (snd \<circ> (\<lambda>w. (w, c::nat))) xs)"
  by (induction xs) auto

lemma bfs_inv_step:
  assumes inv: "bfs_inv E S (hop, (u, l) # rest, vis)"
    and nbs: "\<And>w. E u w \<longleftrightarrow> w \<in> set nbs"
  shows "bfs_inv E S (fold (visitNeighbor l) nbs (hop, rest, vis))"
proof -
  obtain new where f: "fold (visitNeighbor l) nbs (hop, rest, vis) =
       (fold (\<lambda>w h. AList.update w (l + 1) h) new hop, rest @ map (\<lambda>w. (w, l + 1)) new, vis @ new)"
    and new: "set new = set nbs - set vis"
    using fold_visit [of l nbs hop rest vis] by blast
  define hop' where "hop' = fold (\<lambda>w h. AList.update w (l + 1) h) new hop"
  define q' where "q' = rest @ map (\<lambda>w. (w, l + 1)) new"
  have hop': "map_of hop' v = (if v \<in> set new then Some (l + 1) else map_of hop v)" for v
    by (simp add: hop'_def map_of_fold_update)
  have "set vis = dom (map_of hop)
      \<and> S \<subseteq> set vis
      \<and> (\<forall>v k. (v, k) \<in> set ((u, l) # rest) \<longrightarrow> map_of hop v = Some k)
      \<and> (\<forall>v k. map_of hop v = Some k \<longrightarrow> reach E S k v \<and> (\<forall>j. reach E S j v \<longrightarrow> k \<le> j))
      \<and> sorted (map snd ((u, l) # rest))
      \<and> (\<forall>e\<in>set ((u, l) # rest). snd e \<le> snd (hd ((u, l) # rest)) + 1)
      \<and> (\<forall>v k. map_of hop v = Some k \<longrightarrow> v \<notin> fst ` set ((u, l) # rest) \<longrightarrow> (\<forall>w. E v w \<longrightarrow> w \<in> set vis))
      \<and> ((u, l) # rest \<noteq> [] \<longrightarrow> (\<forall>v j. reach E S j v \<longrightarrow> j \<le> snd (hd ((u, l) # rest)) \<longrightarrow> v \<in> set vis))"
    using inv unfolding bfs_inv_def prod.case .
  then have I1: "set vis = dom (map_of hop)" and I0: "S \<subseteq> set vis"
    and I2': "\<forall>v k. (v, k) \<in> set ((u, l) # rest) \<longrightarrow> map_of hop v = Some k"
    and I3': "\<forall>v k. map_of hop v = Some k \<longrightarrow> reach E S k v \<and> (\<forall>j. reach E S j v \<longrightarrow> k \<le> j)"
    and I4: "sorted (map snd ((u, l) # rest))"
    and I4b': "\<forall>e\<in>set ((u, l) # rest). snd e \<le> snd (hd ((u, l) # rest)) + 1"
    and I5': "\<forall>v k. map_of hop v = Some k \<longrightarrow> v \<notin> fst ` set ((u, l) # rest) \<longrightarrow> (\<forall>w. E v w \<longrightarrow> w \<in> set vis)"
    and I7': "(u, l) # rest \<noteq> [] \<longrightarrow> (\<forall>v j. reach E S j v \<longrightarrow> j \<le> snd (hd ((u, l) # rest)) \<longrightarrow> v \<in> set vis)"
    by blast+
  have I2: "\<And>v k. (v, k) \<in> set ((u, l) # rest) \<Longrightarrow> map_of hop v = Some k"
    using I2' by blast
  have I3: "\<And>v k. map_of hop v = Some k \<Longrightarrow> reach E S k v \<and> (\<forall>j. reach E S j v \<longrightarrow> k \<le> j)"
    using I3' by blast
  have I4b: "\<And>e. e \<in> set ((u, l) # rest) \<Longrightarrow> snd e \<le> l + 1"
    using I4b' by auto
  have I5: "\<And>v k w. map_of hop v = Some k \<Longrightarrow> v \<notin> fst ` set ((u, l) # rest) \<Longrightarrow> E v w \<Longrightarrow> w \<in> set vis"
    using I5' by blast
  have I7: "\<And>v j. reach E S j v \<Longrightarrow> j \<le> l \<Longrightarrow> v \<in> set vis"
    using I7' by auto
  have hu: "map_of hop u = Some l" using I2 by simp
  have ge: "\<And>e. e \<in> set q' \<Longrightarrow> l \<le> snd e"
    using I4 by (auto simp: q'_def)
  have le: "\<And>e. e \<in> set q' \<Longrightarrow> snd e \<le> l + 1"
    using I4b by (auto simp: q'_def)
  have J1: "set (vis @ new) = dom (map_of hop')"
    using I1 by (auto simp: hop' dom_def split: if_splits)
  have J0: "S \<subseteq> set (vis @ new)" using I0 by auto
  have J2: "map_of hop' v = Some k" if "(v, k) \<in> set q'" for v k
  proof -
    from that consider "(v, k) \<in> set rest" | "v \<in> set new" "k = l + 1"
      by (auto simp: q'_def)
    then show ?thesis
    proof cases
      case 1
      then have "map_of hop v = Some k" using I2 by simp
      moreover then have "v \<in> set vis" using I1 by auto
      ultimately show ?thesis using new by (simp add: hop')
    next
      case 2
      then show ?thesis by (simp add: hop')
    qed
  qed
  have J3: "reach E S k v \<and> (\<forall>j. reach E S j v \<longrightarrow> k \<le> j)" if "map_of hop' v = Some k" for v k
  proof (cases "v \<in> set new")
    case True
    then have k: "k = l + 1" using that by (simp add: hop')
    have "E u v" using True new nbs by simp
    then have r: "reach E S (Suc l) v" using I3 [OF hu] reach_step by metis
    have "l + 1 \<le> j" if "reach E S j v" for j
    proof (rule ccontr)
      assume "\<not> l + 1 \<le> j"
      then have "v \<in> set vis" using I7 [OF that] by simp
      then show False using True new by simp
    qed
    then show ?thesis using r k by simp
  next
    case False
    then show ?thesis using that I3 by (simp add: hop')
  qed
  have J4: "sorted (map snd q')"
    using I4 I4b by (auto simp: q'_def sorted_append sorted_map_level)
  have J4b: "\<forall>e\<in>set q'. snd e \<le> snd (hd q') + 1"
  proof
    fix e assume e: "e \<in> set q'"
    then have "q' \<noteq> []" by auto
    then have "hd q' \<in> set q'" by simp
    then show "snd e \<le> snd (hd q') + 1" using ge le [OF e] by fastforce
  qed
  have J5: "w \<in> set (vis @ new)"
    if "map_of hop' v = Some k" "v \<notin> fst ` set q'" "E v w" for v k w
  proof (cases "v = u")
    case True
    then show ?thesis using that(3) nbs new by auto
  next
    case False
    have nn: "v \<notin> set new" using that(2) by (force simp: q'_def)
    then have "map_of hop v = Some k" using that(1) by (simp add: hop')
    moreover have "v \<notin> fst ` set ((u, l) # rest)" using that(2) False by (auto simp: q'_def)
    ultimately show ?thesis using I5 that(3) by auto
  qed
  have J7: "v \<in> set (vis @ new)"
    if ne: "q' \<noteq> []" and rj: "reach E S j v" and jh: "j \<le> snd (hd q')" for v j
  proof (cases "j \<le> l")
    case True
    then show ?thesis using I7 [OF rj] by simp
  next
    case False
    have hq: "hd q' \<in> set q'" using ne by simp
    then have "snd (hd q') \<le> l + 1" using le by blast
    then have j: "j = Suc l" and h: "snd (hd q') = l + 1" using False jh by auto
    obtain p where p: "reach E S l p" "E p v"
      using rj unfolding j reach_Suc by blast
    have pv: "p \<in> set vis" using I7 [OF p(1)] by simp
    then obtain k where k: "map_of hop p = Some k" using I1 by auto
    then have kl: "k \<le> l" using I3 p(1) by blast
    have k': "map_of hop' p = Some k" using k pv new by (simp add: hop')
    have "p \<notin> fst ` set q'"
    proof
      assume "p \<in> fst ` set q'"
      then obtain k2 where in_q: "(p, k2) \<in> set q'" by auto
      then have "k2 = k" using J2 k' by fastforce
      moreover have "snd (hd q') \<le> k2"
        using J4 in_q ne by (cases q') (auto simp: rev_image_eqI)
      ultimately show False using kl h by simp
    qed
    then show ?thesis using J5 [OF k' _ p(2)] by simp
  qed
  have "bfs_inv E S (hop', q', vis @ new)"
    unfolding bfs_inv_def prod.case
  proof (intro conjI)
    show "set (vis @ new) = dom (map_of hop')" by (rule J1)
    show "S \<subseteq> set (vis @ new)" by (rule J0)
    show "\<forall>v l. (v, l) \<in> set q' \<longrightarrow> map_of hop' v = Some l" using J2 by blast
    show "\<forall>v k. map_of hop' v = Some k \<longrightarrow> reach E S k v \<and> (\<forall>j. reach E S j v \<longrightarrow> k \<le> j)"
      using J3 by blast
    show "sorted (map snd q')" by (rule J4)
    show "\<forall>e\<in>set q'. snd e \<le> snd (hd q') + 1" by (rule J4b)
    show "\<forall>v k. map_of hop' v = Some k \<longrightarrow> v \<notin> fst ` set q' \<longrightarrow> (\<forall>w. E v w \<longrightarrow> w \<in> set (vis @ new))"
      using J5 by blast
    show "q' \<noteq> [] \<longrightarrow> (\<forall>v j. reach E S j v \<longrightarrow> j \<le> snd (hd q') \<longrightarrow> v \<in> set (vis @ new))"
      using J7 by blast
  qed
  then show ?thesis unfolding f hop'_def q'_def .
qed

lemma bfsLoop_inv:
  "bfs_inv (edgeOf adjacency) S s
   \<Longrightarrow> bfs_inv (edgeOf adjacency) S (bfsLoop adjacency s) \<and> fst (snd (bfsLoop adjacency s)) = []"
proof (induction adjacency s rule: bfsLoop.induct)
  case (1 adjacency hop visited)
  then show ?case by simp
next
  case (2 adjacency hop ident level rest visited)
  show ?case
  proof (cases "map_of adjacency ident")
    case None
    have "bfs_inv (edgeOf adjacency) S (fold (visitNeighbor level) [] (hop, rest, visited))"
      using "2.prems" by (rule bfs_inv_step) (simp add: edgeOf_def None)
    then show ?thesis using "2.IH"(1) [OF None] None by simp
  next
    case (Some nbs)
    have "bfs_inv (edgeOf adjacency) S (fold (visitNeighbor level) nbs (hop, rest, visited))"
      using "2.prems" by (rule bfs_inv_step) (simp add: edgeOf_def Some)
    then show ?thesis using "2.IH"(2) [OF Some] Some by simp
  qed
qed

lemma bfs_inv_final:
  assumes "bfs_inv E S (hop, [], vis)"
  shows "(map_of hop v = Some k \<longrightarrow> reach E S k v \<and> (\<forall>j. reach E S j v \<longrightarrow> k \<le> j))
       \<and> (reach E S j v \<longrightarrow> map_of hop v \<noteq> None)"
proof -
  note inv = assms [unfolded bfs_inv_def prod.case]
  have I1: "set vis = dom (map_of hop)" using inv by (elim conjE)
  have I0: "S \<subseteq> set vis" using inv by (elim conjE)
  have I3: "\<forall>v k. map_of hop v = Some k \<longrightarrow> reach E S k v \<and> (\<forall>j. reach E S j v \<longrightarrow> k \<le> j)"
    using inv by (elim conjE)
  have I5: "\<forall>v k. map_of hop v = Some k \<longrightarrow> (\<forall>w. E v w \<longrightarrow> w \<in> set vis)"
    using inv by (elim conjE) simp
  have "reach E S j v \<Longrightarrow> v \<in> set vis"
  proof (induction rule: reach.induct)
    case (reach_base s)
    then show ?case using I0 by blast
  next
    case (reach_step n u v)
    then obtain k where "map_of hop u = Some k" using I1 by auto
    then show ?case using I5 reach_step.hyps(2) by blast
  qed
  then show ?thesis using I1 I3 by auto
qed

lemma seedNode_seeded:
  assumes "seeded T s" "seedNode base v s = Inr s'"
  shows "seeded (T \<union> {w. w = v \<and> matches base v}) s'"
proof (cases s)
  case (fields hop q vis)
  show ?thesis
  proof (cases v)
    case None
    then show ?thesis using assms by (simp add: seedNode_def fields)
  next
    case (Some a)
    show ?thesis
    proof (cases "toLowerCase a = toLowerCase base")
      case True
      then have s': "s' = (AList.update v 0 hop, q @ [(v, 0)], set_add v vis)"
        using assms(2) by (simp add: seedNode_def fields Some)
      have "{w. w = v \<and> matches base v} = {v}" using True by (auto simp: matches_def Some)
      then show ?thesis using assms(1)
        unfolding s' fields seeded_def by (auto simp: update_conv' set_add_def)
    next
      case False
      then have "s' = s" using assms(2) by (simp add: seedNode_def fields Some)
      moreover have "{w. w = v \<and> matches base v} = {}" using False by (auto simp: matches_def Some)
      ultimately show ?thesis using assms(1) by simp
    qed
  qed
qed

lemma foldE_seedNode_seeded:
  "seeded T s \<Longrightarrow> foldE (seedNode base) vs s = Inr s'
   \<Longrightarrow> seeded (T \<union> {w \<in> set vs. matches base w}) s'"
proof (induction vs arbitrary: T s)
  case Nil
  then show ?case by simp
next
  case (Cons v vs)
  from Cons.prems(2) obtain s1 where s1: "seedNode base v s = Inr s1" "foldE (seedNode base) vs s1 = Inr s'"
    by (auto split: sum.splits)
  have "seeded (T \<union> {w. w = v \<and> matches base v} \<union> {w \<in> set vs. matches base w}) s'"
    using Cons.IH [OF seedNode_seeded [OF Cons.prems(1) s1(1)] s1(2)] .
  moreover have "T \<union> {w. w = v \<and> matches base v} \<union> {w \<in> set vs. matches base w}
      = T \<union> {w \<in> set (v # vs). matches base w}" by auto
  ultimately show ?case by simp
qed

lemma foldE_bases_seeded:
  "seeded T s \<Longrightarrow> foldE (\<lambda>base. foldE (seedNode base) vs) bases s = Inr s'
   \<Longrightarrow> seeded (T \<union> {w \<in> set vs. \<exists>b\<in>set bases. matches b w}) s'"
proof (induction bases arbitrary: T s)
  case Nil
  then show ?case by simp
next
  case (Cons b bases)
  from Cons.prems(2) obtain s1 where s1: "foldE (seedNode b) vs s = Inr s1"
      "foldE (\<lambda>base. foldE (seedNode base) vs) bases s1 = Inr s'"
    by (auto split: sum.splits)
  have "seeded (T \<union> {w \<in> set vs. matches b w} \<union> {w \<in> set vs. \<exists>b\<in>set bases. matches b w}) s'"
    using Cons.IH [OF foldE_seedNode_seeded [OF Cons.prems(1) s1(1)] s1(2)] .
  moreover have "T \<union> {w \<in> set vs. matches b w} \<union> {w \<in> set vs. \<exists>b\<in>set bases. matches b w}
      = T \<union> {w \<in> set vs. \<exists>b\<in>set (b # bases). matches b w}" by auto
  ultimately show ?case by simp
qed

lemma seedHops_seeded:
  assumes "seedHops bases vs = Inr s"
  shows "seeded {w \<in> set vs. \<exists>b\<in>set bases. matches b w} s"
proof -
  have "seeded {} ([], [], [])" by (simp add: seeded_def)
  from foldE_bases_seeded [OF this assms [unfolded seedHops_def]] show ?thesis by simp
qed

lemma foldE_seedNode_total:
  "None \<notin> set vs \<Longrightarrow> \<exists>s'. foldE (seedNode base) vs s = Inr s'"
proof (induction vs arbitrary: s)
  case Nil
  then show ?case by (simp del: split_paired_Ex)
next
  case (Cons v vs)
  obtain a where "v = Some a" using Cons.prems by (cases v) auto
  then have "\<exists>s1. seedNode base v s = Inr s1"
    by (simp add: seedNode_def split: prod.splits)
  then obtain s1 where "seedNode base v s = Inr s1" by blast
  then show ?case using Cons.IH [of s1] Cons.prems by auto
qed

lemma seedHops_total:
  assumes "None \<notin> set vs"
  shows "\<exists>s. seedHops bases vs = Inr s"
proof -
  have "\<exists>s'. foldE (\<lambda>base. foldE (seedNode base) vs) bases s = Inr s'" for s
  proof (induction bases arbitrary: s)
    case Nil
    then show ?case by (simp del: split_paired_Ex)
  next
    case (Cons b bases)
    obtain s1 where "foldE (seedNode b) vs s = Inr s1"
      using foldE_seedNode_total [OF assms] by blast
    then show ?case using Cons [of s1] by auto
  qed
  then show ?thesis by (simp add: seedHops_def)
qed

lemma sorted_zero_levels: "\<forall>e\<in>set q. snd e = (0::nat) \<Longrightarrow> sorted (map snd q)"
  by (induction q) auto

lemma seeded_bfs_inv:
  assumes "seeded S s"
  shows "bfs_inv E S s"
proof -
  obtain hop q vis where fields: "s = (hop, q, vis)" by (cases s)
  note sd = assms [unfolded fields seeded_def prod.case]
  have v: "set vis = S" using sd by (elim conjE)
  have h: "\<forall>v. map_of hop v = (if v \<in> S then Some 0 else None)" using sd by (elim conjE)
  have q: "set q = (\<lambda>v. (v, 0)) ` S" using sd by (elim conjE)
  have z: "\<forall>e\<in>set q. snd e = 0" unfolding q by simp
  have fq: "fst ` set q = S" unfolding q by force
  have hs: "map_of hop v = Some k \<longleftrightarrow> v \<in> S \<and> k = 0" for v k
    by (simp add: h)
  show ?thesis
    unfolding fields bfs_inv_def prod.case
  proof (intro conjI)
    show "set vis = dom (map_of hop)" unfolding v dom_def by (simp add: h)
    show "S \<subseteq> set vis" using v by simp
    show "\<forall>v l. (v, l) \<in> set q \<longrightarrow> map_of hop v = Some l" unfolding q hs by blast
    show "\<forall>v k. map_of hop v = Some k \<longrightarrow> reach E S k v \<and> (\<forall>j. reach E S j v \<longrightarrow> k \<le> j)"
      unfolding hs by (simp add: reach_0)
    show "sorted (map snd q)" using z by (rule sorted_zero_levels)
    show "\<forall>e\<in>set q. snd e \<le> snd (hd q) + 1" using z by simp
    show "\<forall>v k. map_of hop v = Some k \<longrightarrow> v \<notin> fst ` set q \<longrightarrow> (\<forall>w. E v w \<longrightarrow> w \<in> set vis)"
      unfolding hs fq by blast
    show "q \<noteq> [] \<longrightarrow> (\<forall>v j. reach E S j v \<longrightarrow> j \<le> snd (hd q) \<longrightarrow> v \<in> set vis)"
    proof (intro impI allI)
      fix v j assume ne: "q \<noteq> []" and r: "reach E S j v" and j: "j \<le> snd (hd q)"
      have "hd q \<in> set q" using ne by simp
      then have "snd (hd q) = 0" using z by blast
      then have "j = 0" using j by simp
      then show "v \<in> set vis" using r v by (simp add: reach_0)
    qed
  qed
qed

lemma walk_snoc: "p \<noteq> [] \<Longrightarrow> walk E (p @ [v]) \<longleftrightarrow> walk E p \<and> E (last p) v"
  by (induction E p rule: walk.induct) auto

lemma reach_walk:
  "reach E S n v \<longleftrightarrow> (\<exists>p. p \<noteq> [] \<and> hd p \<in> S \<and> last p = v \<and> walk E p \<and> length p = Suc n)"
proof
  assume "reach E S n v"
  then show "\<exists>p. p \<noteq> [] \<and> hd p \<in> S \<and> last p = v \<and> walk E p \<and> length p = Suc n"
  proof (induction rule: reach.induct)
    case (reach_base s)
    then show ?case by (intro exI [of _ "[s]"]) simp
  next
    case (reach_step n u v)
    then obtain p where p: "p \<noteq> []" "hd p \<in> S" "last p = u" "walk E p" "length p = Suc n" by blast
    then show ?case using reach_step.hyps(2)
      by (intro exI [of _ "p @ [v]"]) (simp add: walk_snoc)
  qed
next
  assume "\<exists>p. p \<noteq> [] \<and> hd p \<in> S \<and> last p = v \<and> walk E p \<and> length p = Suc n"
  then obtain p where p: "p \<noteq> []" "hd p \<in> S" "last p = v" "walk E p" "length p = Suc n" by blast
  then show "reach E S n v"
  proof (induction p arbitrary: n v rule: rev_induct)
    case Nil
    then show ?case by simp
  next
    case (snoc x xs)
    show ?case
    proof (cases "xs = []")
      case True
      then show ?thesis using snoc.prems by (simp add: reach_0)
    next
      case False
      then obtain m where m: "n = Suc m" "length xs = Suc m" using snoc.prems(5) by (cases n) auto
      have "reach E S m (last xs)"
        using snoc.IH [OF False _ refl _ m(2)] snoc.prems(2,4) False by (simp add: walk_snoc)
      moreover have "E (last xs) x" using snoc.prems(4) False by (simp add: walk_snoc)
      ultimately show ?thesis using snoc.prems(3) m(1) by (auto intro: reach_step)
    qed
  qed
qed

lemma seeds_isBase:
  "{w \<in> set (validNodes (buildGraph txs)). \<exists>b\<in>set bases. matches b w} = {w. isBase bases txs w}"
  by (auto simp: buildGraph_nodes isBase_def matches_def)

lemma hopLabeler_correct:
  assumes "hopLabeler bases (buildGraph txs) = Inr hop"
  shows "(map_of hop v = Some k \<longrightarrow>
            reach (undirEdge txs) {w. isBase bases txs w} k v
          \<and> (\<forall>j. reach (undirEdge txs) {w. isBase bases txs w} j v \<longrightarrow> k \<le> j))
       \<and> (reach (undirEdge txs) {w. isBase bases txs w} j v \<longrightarrow> map_of hop v \<noteq> None)"
proof -
  let ?g = "buildGraph txs"
  let ?S = "{w. isBase bases txs w}"
  obtain s where s: "seedHops bases (validNodes ?g) = Inr s" and hop: "hop = fst (bfsLoop (adj ?g) s)"
    using assms by (auto simp: hopLabeler_def split: sum.splits)
  have "seeded ?S s" using seedHops_seeded [OF s] unfolding seeds_isBase .
  then have "bfs_inv (edgeOf (adj ?g)) ?S s" by (rule seeded_bfs_inv)
  then have fin: "bfs_inv (edgeOf (adj ?g)) ?S (bfsLoop (adj ?g) s)"
    and e: "fst (snd (bfsLoop (adj ?g) s)) = []"
    using bfsLoop_inv by blast+
  obtain vis where "bfsLoop (adj ?g) s = (hop, [], vis)"
    using hop e by (cases "bfsLoop (adj ?g) s") auto
  then have "bfs_inv (undirEdge txs) ?S (hop, [], vis)"
    using fin by (simp add: buildGraph_edge)
  then show ?thesis by (rule bfs_inv_final)
qed

lemma triangle_hops:
  "hopLabeler [''A''] (buildGraph triangle) = Inr [(Some ''a'', 0), (Some ''b'', 1), (Some ''c'', 1)]"
  unfolding triangle_graph
  by (simp add: hopLabeler_def seedHops_def seedNode_def validNodes_def map_keys_def
      lower_A lower_a lower_b lower_c set_add_def visitNeighbor_apply)

text \<open>
  C1. On transfers that all have both addresses the hop labeler returns, and whatever
  it returns is the distance to the nearest base node: a node labelled \<open>k\<close> is the end
  of a path of exactly \<open>k\<close> undirected edges from a base node and of no shorter one,
  and a node is left without a label exactly when no path from a base node reaches it.
\<close>

theorem hop_is_shortest_distance:
  "((\<forall>t\<in>set txs. tx_from t \<noteq> None \<and> tx_to t \<noteq> None)
      \<longrightarrow> (\<exists>hop. hopLabeler bases (buildGraph txs) = Inr hop))
   \<and> (\<forall>hop. hopLabeler bases (buildGraph txs) = Inr hop \<longrightarrow>
        (\<forall>v k. map_of hop v = Some k \<longrightarrow>
             (\<exists>p. hopPath txs bases p v \<and> length p = k + 1)
           \<and> (\<forall>p. hopPath txs bases p v \<longrightarrow> k + 1 \<le> length p))
      \<and> (\<forall>v. map_of hop v = None \<longleftrightarrow> \<not> (\<exists>p. hopPath txs bases p v)))"
proof (intro conjI impI allI)
  assume wf: "\<forall>t\<in>set txs. tx_from t \<noteq> None \<and> tx_to t \<noteq> None"
  then have "None \<notin> set (validNodes (buildGraph txs))"
    by (auto simp: buildGraph_nodes)
  then obtain s where "seedHops bases (validNodes (buildGraph txs)) = Inr s"
    using seedHops_total by blast
  then show "\<exists>hop. hopLabeler bases (buildGraph txs) = Inr hop"
    by (simp add: hopLabeler_def)
next
  fix hop v k
  assume h: "hopLabeler bases (buildGraph txs) = Inr hop" and k: "map_of hop v = Some k"
  have r: "reach (undirEdge txs) {w. isBase bases txs w} k v"
    and m: "\<And>j. reach (undirEdge txs) {w. isBase bases txs w} j v \<Longrightarrow> k \<le> j"
    using hopLabeler_correct [OF h, of v k] k by blast+
  show "\<exists>p. hopPath txs bases p v \<and> length p = k + 1"
    using r unfolding reach_walk hopPath_def by auto
  show "k + 1 \<le> length p" if hp: "hopPath txs bases p v" for p
  proof -
    obtain j where j: "length p = Suc j" using hp by (cases p) (auto simp: hopPath_def)
    then have "reach (undirEdge txs) {w. isBase bases txs w} j v"
      unfolding reach_walk using hp by (auto simp: hopPath_def)
    then show ?thesis using m j by simp
  qed
next
  fix hop v
  assume h: "hopLabeler bases (buildGraph txs) = Inr hop"
  show "map_of hop v = None \<longleftrightarrow> \<not> (\<exists>p. hopPath txs bases p v)"
  proof
    assume n: "map_of hop v = None"
    show "\<not> (\<exists>p. hopPath txs bases p v)"
    proof
      assume "\<exists>p. hopPath txs bases p v"
      then obtain p where p: "hopPath txs bases p v" by blast
      then obtain j where j: "length p = Suc j" by (cases p) (auto simp: hopPath_def)
      then have "reach (undirEdge txs) {w. isBase bases txs w} j v"
        unfolding reach_walk using p by (auto simp: hopPath_def)
      then show False using hopLabeler_correct [OF h, of v 0 j] n by simp
    qed
  next
    assume np: "\<not> (\<exists>p. hopPath txs bases p v)"
    show "map_of hop v = None"
    proof (rule ccontr)
      assume "map_of hop v \<noteq> None"
      then obtain k where k: "map_of hop v = Some k" by auto
      have "reach (undirEdge txs) {w. isBase bases txs w} k v"
        using hopLabeler_correct [OF h, of v k] k by blast
      then show False using np unfolding reach_walk hopPath_def by auto
    qed
  qed
qed

text \<open>
  C1 on the triangle with the base address \<^verbatim>\<open>A\<close>: the hops are \<open>a = 0\<close>, \<open>b = 1\<close>,
  \<open>c = 1\<close>; a path of one edge ends in \<^verbatim>\<open>c\<close>, and \<^verbatim>\<open>c\<close> alone is no path from a base.
\<close>

theorem hop_is_shortest_distance_witness:
  "hopLabeler [''A''] (buildGraph triangle) = Inr [(Some ''a'', 0), (Some ''b'', 1), (Some ''c'', 1)]
   \<and> (\<exists>p. hopPath triangle [''A''] p (Some ''c'') \<and> length p = 1 + 1)
   \<and> \<not> hopPath triangle [''A''] [Some ''c''] (Some ''c'')"
proof -
  note T = hop_is_shortest_distance [of triangle "[''A'']"]
  have h: "hopLabeler [''A''] (buildGraph triangle) = Inr [(Some ''a'', 0), (Some ''b'', 1), (Some ''c'', 1)]"
    by (rule triangle_hops)
  have k: "map_of [(Some ''a'', 0), (Some ''b'', 1), (Some ''c'', 1::nat)] (Some ''c'') = Some 1"
    by simp
  from T h k have a: "\<exists>p. hopPath triangle [''A''] p (Some ''c'') \<and> length p = 1 + 1"
    and b: "\<forall>p. hopPath triangle [''A''] p (Some ''c'') \<longrightarrow> 1 + 1 \<le> length p"
    by blast+
  from b have "\<not> hopPath triangle [''A''] [Some ''c''] (Some ''c'')" by auto
  then show ?thesis using h a by simp
qed

section \<open>Identity of addresses\<close>

lemma addTransfer_link:
  "map_of (linkMap (addTransfer tx g)) k = linkStep k tx (map_of (linkMap g) k)"
  by (auto simp: addTransfer_def Let_def map_has_iff map_of_map_entry update_conv' linkStep_def
        split: option.splits)

lemma fold_addTransfer_link:
  "map_of (linkMap (fold addTransfer txs g)) k = fold (linkStep k) txs (map_of (linkMap g) k)"
  by (induction txs arbitrary: g) (simp_all add: addTransfer_link)

lemma linkStep_apply:
  "linkStep k tx (Some l) =
     (if linkKey (tx_from tx) (tx_to tx) = k
      then Some (l\<lparr>lk_value := lk_value l + tx_value tx, lk_count := lk_count l + 1\<rparr>) else Some l)"
  "linkStep k tx None =
     (if linkKey (tx_from tx) (tx_to tx) = k
      then Some \<lparr>lk_source = tx_from tx, lk_target = tx_to tx, lk_value = tx_value tx,
                  lk_count = 1, lk_isBidirectional = False\<rparr> else None)"
  by (simp_all add: linkStep_def)

lemma fold_linkStep_Some:
  "fold (linkStep k) txs (Some l) =
     Some (l\<lparr>lk_value := lk_value l + sum_list (map tx_value (filter (\<lambda>t. linkKey (tx_from t) (tx_to t) = k) txs)),
             lk_count := lk_count l + length (filter (\<lambda>t. linkKey (tx_from t) (tx_to t) = k) txs)\<rparr>)"
  by (induction txs arbitrary: l) (simp_all add: linkStep_apply add.assoc)

lemma fold_linkStep_None: "fold (linkStep k) txs None = linkFor txs k"
proof (induction txs)
  case Nil
  then show ?case by (simp add: linkFor_def)
next
  case (Cons t ts)
  show ?case
  proof (cases "linkKey (tx_from t) (tx_to t) = k")
    case True
    then show ?thesis by (simp add: linkStep_apply fold_linkStep_Some linkFor_def)
  next
    case False
    then show ?thesis using Cons by (simp add: linkStep_apply linkFor_def)
  qed
qed

lemma buildGraph_links: "map_of (linkMap (buildGraph txs)) k = linkFor txs k"
  by (simp add: buildGraph_def fold_addTransfer_link fold_linkStep_None)

lemma addTransfer_links_distinct:
  "distinct (map fst (linkMap g)) \<Longrightarrow> distinct (map fst (linkMap (addTransfer tx g)))"
  by (simp add: addTransfer_def Let_def distinct_update distinct_map_entry)

lemma buildGraph_links_distinct: "distinct (map fst (linkMap (buildGraph txs)))"
proof -
  have "distinct (map fst (linkMap g)) \<Longrightarrow> distinct (map fst (linkMap (fold addTransfer txs g)))" for g
    by (induction txs arbitrary: g) (simp_all add: addTransfer_links_distinct)
  then show ?thesis by (simp add: buildGraph_def)
qed

lemma linkFor_ends:
  assumes "linkFor txs k = Some l"
  shows "lk_source l \<in> tx_from ` set txs" "lk_target l \<in> tx_to ` set txs" "\<not> lk_isBidirectional l"
proof -
  obtain t ts where f: "filter (\<lambda>t. linkKey (tx_from t) (tx_to t) = k) txs = t # ts"
    and l: "l = \<lparr>lk_source = tx_from t, lk_target = tx_to t,
                 lk_value = sum_list (map tx_value (t # ts)), lk_count = length (t # ts),
                 lk_isBidirectional = False\<rparr>"
    using assms by (auto simp: linkFor_def split: list.splits)
  have "t \<in> set (filter (\<lambda>t. linkKey (tx_from t) (tx_to t) = k) txs)" unfolding f by simp
  then have "t \<in> set txs" by simp
  then show "lk_source l \<in> tx_from ` set txs" "lk_target l \<in> tx_to ` set txs" "\<not> lk_isBidirectional l"
    by (simp_all add: l)
qed

lemma buildGraph_link_values:
  assumes "l \<in> set (map_values (linkMap (buildGraph txs)))"
  shows "lk_source l \<in> set (validNodes (buildGraph txs))" "lk_target l \<in> set (validNodes (buildGraph txs))"
    "\<not> lk_isBidirectional l"
proof -
  obtain k where "(k, l) \<in> set (linkMap (buildGraph txs))"
    using assms by (auto simp: map_values_def)
  then have "map_of (linkMap (buildGraph txs)) k = Some l"
    using buildGraph_links_distinct by simp
  then have "linkFor txs k = Some l" by (simp add: buildGraph_links)
  from linkFor_ends [OF this]
  show "lk_source l \<in> set (validNodes (buildGraph txs))" "lk_target l \<in> set (validNodes (buildGraph txs))"
    "\<not> lk_isBidirectional l"
    by (simp_all add: buildGraph_nodes)
qed

lemma preFilteredLinks_all:
  "map (\<lambda>l. l\<lparr>lk_isBidirectional := False\<rparr>) (preFilteredLinks (buildGraph txs))
     = map_values (linkMap (buildGraph txs))"
proof -
  let ?g = "buildGraph txs"
  let ?vs = "map_values (linkMap ?g)"
  have keep: "filter (\<lambda>l. lk_source l \<in> set (validNodes ?g) \<and> lk_target l \<in> set (validNodes ?g)) ?vs = ?vs"
    using buildGraph_link_values(1,2) [of _ txs] by (simp add: filter_id_conv)
  have "map (\<lambda>l. l\<lparr>lk_isBidirectional := False\<rparr>) (map (\<lambda>l. if c l then l\<lparr>lk_isBidirectional := True\<rparr> else l) ?vs) = ?vs"
    for c
    using buildGraph_link_values(3) [of _ txs] by (simp add: map_idI)
  then show ?thesis unfolding preFilteredLinks_def Let_def keep by simp
qed

lemma getNodeType_case:
  "toLowerCase s = toLowerCase s' \<Longrightarrow> getNodeType (Some s) labels = getNodeType (Some s') labels"
  by (simp add: getNodeType_def)

lemma addTransfer_balance:
  "getOrZero (balanceMap (addTransfer tx g)) v = getOrZero (balanceMap g) v + contribution v tx"
  by (simp add: addTransfer_def Let_def getOrZero_def update_conv' contribution_def)

lemma fold_addTransfer_balance:
  "getOrZero (balanceMap (fold addTransfer txs g)) v
     = getOrZero (balanceMap g) v + sum_list (map (contribution v) txs)"
  by (induction txs arbitrary: g) (simp_all add: addTransfer_balance)

lemma buildGraph_balance:
  "getOrZero (balanceMap (buildGraph txs)) v = sum_list (map (contribution v) txs)"
  by (simp add: buildGraph_def fold_addTransfer_balance) (simp add: getOrZero_def)

lemma addTransfer_distinct:
  "distinct (validNodes g) \<Longrightarrow> distinct (validNodes (addTransfer tx g))"
  by (simp add: addTransfer_def Let_def validNodes_def map_keys_def distinct_update)

lemma fold_addTransfer_distinct:
  "distinct (validNodes g) \<Longrightarrow> distinct (validNodes (fold addTransfer txs g))"
  by (induction txs arbitrary: g) (simp_all add: addTransfer_distinct)

lemma buildGraph_distinct: "distinct (validNodes (buildGraph txs))"
  unfolding buildGraph_def by (rule fold_addTransfer_distinct) (simp add: validNodes_def map_keys_def)

lemma hop_zero_iff_base:
  assumes "hopLabeler bases (buildGraph txs) = Inr hop"
  shows "map_of hop v = Some 0 \<longleftrightarrow> isBase bases txs v"
proof
  assume "map_of hop v = Some 0"
  then have "reach (undirEdge txs) {w. isBase bases txs w} 0 v"
    using hopLabeler_correct [OF assms, of v 0] by blast
  then show "isBase bases txs v" by (simp add: reach_0)
next
  assume "isBase bases txs v"
  then have r: "reach (undirEdge txs) {w. isBase bases txs w} 0 v" by (simp add: reach_0)
  then obtain k where k: "map_of hop v = Some k"
    using hopLabeler_correct [OF assms, of v 0 0] by auto
  then have "k \<le> 0" using hopLabeler_correct [OF assms, of v k] r by blast
  then show "map_of hop v = Some 0" using k by simp
qed

lemma mixedCase_graph:
  "buildGraph mixedCase =
     \<lparr>balanceMap = [(Some ''a'', 1), (Some ''b'', 1), (Some ''A'', 2), (Some ''c'', 2)],
      adj = [(Some ''a'', [Some ''b'']), (Some ''b'', [Some ''a'']),
             (Some ''A'', [Some ''c'']), (Some ''c'', [Some ''A''])],
      linkMap = [(''a-b'', \<lparr>lk_source = Some ''a'', lk_target = Some ''b'', lk_value = 1, lk_count = 1, lk_isBidirectional = False\<rparr>),
                 (''A-c'', \<lparr>lk_source = Some ''A'', lk_target = Some ''c'', lk_value = 2, lk_count = 1, lk_isBidirectional = False\<rparr>)]\<rparr>"
  by (simp add: buildGraph_def mixedCase_def transfer_def addTransfer_def Let_def getOrZero_def
      map_has_def set_add_def linkKey_def str_def)

lemma mixedCase_hops:
  "hopLabeler [''a''] (buildGraph mixedCase)
     = Inr [(Some ''a'', 0), (Some ''A'', 0), (Some ''b'', 1), (Some ''c'', 1)]"
  unfolding mixedCase_graph
  by (simp add: hopLabeler_def seedHops_def seedNode_def validNodes_def map_keys_def
      lower_A lower_a lower_b lower_c set_add_def visitNeighbor_apply)

lemma mixedCase_links:
  "linkFor mixedCase ''A-c'' = Some \<lparr>lk_source = Some ''A'', lk_target = Some ''c'', lk_value = 2,
      lk_count = 1, lk_isBidirectional = False\<rparr>"
  "linkFor mixedCase ''a-c'' = None"
  by (simp_all add: linkFor_def mixedCase_def transfer_def linkKey_def str_def)

text \<open>
  C2, as the code has it. The graph builder keys nodes, balances and adjacency by the
  exact address string: the nodes are the distinct strings that occur as sender or
  receiver, the balance of a node sums the transfers that name exactly this string, and
  two nodes are adjacent exactly when a transfer names exactly these two strings. Links
  are keyed by the exact sender, a hyphen and the exact receiver: the link of a key has
  the source and the target of the first transfer with this key and the sum and the
  count of all transfers with this key, and every link of the map is in the link list.
  Case is disregarded in the seeding of hops, where a node has hop 0 exactly when its
  lower-case form is that of some base address, and in the type of a node, which is the
  same for two ids with the same lower-case form.
\<close>

theorem nodes_keyed_by_exact_string:
  "distinct (validNodes (buildGraph txs))
   \<and> set (validNodes (buildGraph txs)) = tx_from ` set txs \<union> tx_to ` set txs
   \<and> (\<forall>v. getOrZero (balanceMap (buildGraph txs)) v = sum_list (map (contribution v) txs))
   \<and> (\<forall>u v. edgeOf (adj (buildGraph txs)) u v \<longleftrightarrow> undirEdge txs u v)
   \<and> (\<forall>k. map_of (linkMap (buildGraph txs)) k = linkFor txs k)
   \<and> map (\<lambda>l. l\<lparr>lk_isBidirectional := False\<rparr>) (preFilteredLinks (buildGraph txs))
       = map_values (linkMap (buildGraph txs))
   \<and> (\<forall>hop. hopLabeler bases (buildGraph txs) = Inr hop
         \<longrightarrow> (\<forall>v. map_of hop v = Some 0 \<longleftrightarrow> isBase bases txs v))
   \<and> (\<forall>s s' labels. toLowerCase s = toLowerCase s'
         \<longrightarrow> getNodeType (Some s) labels = getNodeType (Some s') labels)"
proof (intro conjI allI impI)
  show "distinct (validNodes (buildGraph txs))" by (rule buildGraph_distinct)
  show "set (validNodes (buildGraph txs)) = tx_from ` set txs \<union> tx_to ` set txs"
    by (rule buildGraph_nodes)
  show "getOrZero (balanceMap (buildGraph txs)) v = sum_list (map (contribution v) txs)" for v
    by (rule buildGraph_balance)
  show "edgeOf (adj (buildGraph txs)) u v = undirEdge txs u v" for u v
    by (simp add: buildGraph_edge)
  show "map_of (linkMap (buildGraph txs)) k = linkFor txs k" for k
    by (rule buildGraph_links)
  show "map (\<lambda>l. l\<lparr>lk_isBidirectional := False\<rparr>) (preFilteredLinks (buildGraph txs))
       = map_values (linkMap (buildGraph txs))"
    by (rule preFilteredLinks_all)
  show "map_of hop v = Some 0 \<longleftrightarrow> isBase bases txs v"
    if "hopLabeler bases (buildGraph txs) = Inr hop" for hop v
    using that by (rule hop_zero_iff_base)
  show "getNodeType (Some s) labels = getNodeType (Some s') labels"
    if "toLowerCase s = toLowerCase s'" for s s' labels
    using that by (rule getNodeType_case)
qed

text \<open>
  C2 as amended, on two transfers sent by \<^verbatim>\<open>a\<close> and by \<^verbatim>\<open>A\<close> with the base address
  \<^verbatim>\<open>a\<close>: both are nodes, the balance of \<^verbatim>\<open>a\<close> is that of its own transfer, the link
  from \<^verbatim>\<open>A\<close> to \<^verbatim>\<open>c\<close> is its own and there is none from \<^verbatim>\<open>a\<close> to \<^verbatim>\<open>c\<close>, both have
  hop 0, and both have the same type.
\<close>

theorem nodes_keyed_by_exact_string_witness:
  "validNodes (buildGraph mixedCase) = [Some ''a'', Some ''b'', Some ''A'', Some ''c'']
   \<and> distinct (validNodes (buildGraph mixedCase))
   \<and> getOrZero (balanceMap (buildGraph mixedCase)) (Some ''a'') = sum_list (map (contribution (Some ''a'')) mixedCase)
   \<and> getOrZero (balanceMap (buildGraph mixedCase)) (Some ''a'') = 1
   \<and> map_of (linkMap (buildGraph mixedCase)) ''A-c''
        = Some \<lparr>lk_source = Some ''A'', lk_target = Some ''c'', lk_value = 2,
                 lk_count = 1, lk_isBidirectional = False\<rparr>
   \<and> map_of (linkMap (buildGraph mixedCase)) ''a-c'' = None
   \<and> hopLabeler [''a''] (buildGraph mixedCase)
        = Inr [(Some ''a'', 0), (Some ''A'', 0), (Some ''b'', 1), (Some ''c'', 1)]
   \<and> isBase [''a''] mixedCase (Some ''A'')
   \<and> getNodeType (Some ''A'') [] = getNodeType (Some ''a'') []"
proof -
  note T = nodes_keyed_by_exact_string [of mixedCase "[''a'']"]
  have "map_of [(Some ''a'', 0), (Some ''A'', 0), (Some ''b'', 1), (Some ''c'', 1::nat)] (Some ''A'') = Some 0"
    by simp
  then have b: "isBase [''a''] mixedCase (Some ''A'')"
    using T mixedCase_hops by blast
  have g: "getNodeType (Some ''A'') [] = getNodeType (Some ''a'') []"
    using T lower_A lower_a by simp
  have l: "map_of (linkMap (buildGraph mixedCase)) ''A-c''
        = Some \<lparr>lk_source = Some ''A'', lk_target = Some ''c'', lk_value = 2,
                 lk_count = 1, lk_isBidirectional = False\<rparr>"
    "map_of (linkMap (buildGraph mixedCase)) ''a-c'' = None"
    using T mixedCase_links by simp_all
  have v: "getOrZero (balanceMap (buildGraph mixedCase)) (Some ''a'') = 1"
    unfolding mixedCase_graph by (simp add: getOrZero_def)
  have n: "validNodes (buildGraph mixedCase) = [Some ''a'', Some ''b'', Some ''A'', Some ''c'']"
    unfolding mixedCase_graph by (simp add: validNodes_def map_keys_def)
  have d: "distinct (validNodes (buildGraph mixedCase))" using T by blast
  have s: "getOrZero (balanceMap (buildGraph mixedCase)) (Some ''a'') = sum_list (map (contribution (Some ''a'')) mixedCase)"
    using T by blast
  show ?thesis using n d s v l mixedCase_hops b g by (intro conjI)
qed

text \<open>
  C2, as the claim states it, fails: \<^verbatim>\<open>a\<close> and \<^verbatim>\<open>A\<close> are one address without regard to
  case, and the graph has a node, a balance and an adjacency entry for each.
\<close>

theorem case_variants_counterexample:
  "toLowerCase ''A'' = toLowerCase ''a''
   \<and> validNodes (buildGraph mixedCase) = [Some ''a'', Some ''b'', Some ''A'', Some ''c'']
   \<and> balanceMap (buildGraph mixedCase) = [(Some ''a'', 1), (Some ''b'', 1), (Some ''A'', 2), (Some ''c'', 2)]
   \<and> adj (buildGraph mixedCase) = [(Some ''a'', [Some ''b'']), (Some ''b'', [Some ''a'']),
             (Some ''A'', [Some ''c'']), (Some ''c'', [Some ''A''])]"
  unfolding mixedCase_graph by (simp add: validNodes_def map_keys_def lower_A lower_a)

section \<open>Properties of the cluster finder\<close>

lemma uf_rel_self: "uf_rel (AList.update i i parent) \<subseteq> uf_rel parent"
  by (auto simp: uf_rel_def update_conv' split: if_splits)

lemma uf_rel_new_self: "map_of parent i = None \<Longrightarrow> uf_rel (AList.update i i parent) = uf_rel parent"
  by (auto simp: uf_rel_def update_conv' split: if_splits)

lemma uf_find_total:
  assumes "wf (uf_rel parent)"
  shows "\<exists>r p'. uf_find parent i = Some (r, p') \<and> uf_rel p' = uf_rel parent \<and> map_of p' r = Some r"
  using assms
proof (induction i rule: wf_induct_rule [OF assms])
  case (1 i)
  show ?case
  proof (cases "map_of parent i")
    case None
    then show ?thesis
      by (subst uf_find.simps) (simp add: uf_rel_new_self update_conv')
  next
    case (Some p)
    show ?thesis
    proof (cases "p = i")
      case True
      then show ?thesis using Some by (subst uf_find.simps) simp
    next
      case False
      then have "(p, i) \<in> uf_rel parent" using Some by (simp add: uf_rel_def)
      from "1.IH" [OF this "1.prems"] show ?thesis
        using Some False by (subst uf_find.simps) simp
    qed
  qed
qed

lemma wf_uf_rel_link:
  assumes "wf (uf_rel parent)" "map_of parent rj = Some rj" "ri \<noteq> rj"
  shows "wf (uf_rel (AList.update ri rj parent))"
proof -
  have sub: "uf_rel (AList.update ri rj parent) \<subseteq> insert (rj, ri) (uf_rel parent)"
    by (auto simp: uf_rel_def update_conv' split: if_splits)
  have "(ri, rj) \<notin> (uf_rel parent)\<^sup>*"
  proof
    assume "(ri, rj) \<in> (uf_rel parent)\<^sup>*"
    then show False
    proof (cases rule: rtranclE)
      case base
      then show ?thesis using assms(3) by simp
    next
      case (step y)
      then show ?thesis using assms(2) by (auto simp: uf_rel_def)
    qed
  qed
  then have "wf (insert (rj, ri) (uf_rel parent))" using assms(1) by (simp add: wf_insert)
  then show ?thesis using sub by (rule wf_subset)
qed

lemma uf_union_total:
  assumes "wf (uf_rel parent)"
  shows "\<exists>p'. uf_union i j parent = Some p' \<and> wf (uf_rel p')"
proof -
  obtain ri p1 where 1: "uf_find parent i = Some (ri, p1)" "uf_rel p1 = uf_rel parent"
    using uf_find_total [OF assms] by blast
  then have w1: "wf (uf_rel p1)" using assms by simp
  obtain rj p2 where 2: "uf_find p1 j = Some (rj, p2)" "uf_rel p2 = uf_rel p1" "map_of p2 rj = Some rj"
    using uf_find_total [OF w1] by blast
  then have w2: "wf (uf_rel p2)" using w1 by simp
  show ?thesis
  proof (cases "ri = rj")
    case True
    then show ?thesis using 1 2 w2 by (simp add: uf_union_def)
  next
    case False
    then show ?thesis using 1 2 wf_uf_rel_link [OF w2 2(3) False] by (simp add: uf_union_def)
  qed
qed

lemma foldO_unionLink_total:
  "wf (uf_rel parent) \<Longrightarrow>
     \<exists>ns p'. foldO unionLink ls (nodeSet, parent) = Some (ns, p') \<and> wf (uf_rel p')"
proof (induction ls arbitrary: nodeSet parent)
  case Nil
  then show ?case by simp
next
  case (Cons l ls)
  obtain p1 where p1: "uf_union (lk_source l) (lk_target l) parent = Some p1" "wf (uf_rel p1)"
    using uf_union_total [OF Cons.prems] by blast
  show ?case
    using Cons.IH [OF p1(2), of "set_add (lk_target l) (set_add (lk_source l) nodeSet)"] p1(1)
    by (simp add: unionLink_def)
qed

lemma fold_addIsolated_wf:
  "wf (uf_rel (snd s)) \<Longrightarrow> wf (uf_rel (snd (fold addIsolated vs s)))"
proof (induction vs arbitrary: s)
  case Nil
  then show ?case by simp
next
  case (Cons v vs)
  have "wf (uf_rel (snd (addIsolated v s)))"
    using Cons.prems wf_subset [OF _ uf_rel_self]
    by (cases s) (auto simp: addIsolated_def)
  then show ?case using Cons.IH by simp
qed

lemma clusters_total:
  "\<exists>nodeSet parent. clusters ls vs = Some (nodeSet, parent) \<and> wf (uf_rel parent)"
proof -
  have "wf (uf_rel ([] :: (addr \<times> addr) list))" by (simp add: uf_rel_def)
  then obtain ns p where f: "foldO unionLink ls ([], []) = Some (ns, p)" "wf (uf_rel p)"
    using foldO_unionLink_total by blast
  obtain ns' p' where r: "fold addIsolated vs (ns, p) = (ns', p')"
    by (cases "fold addIsolated vs (ns, p)") auto
  have "wf (uf_rel p')" using fold_addIsolated_wf [of "(ns, p)" vs] f(2) r by simp
  then show ?thesis using f(1) r by (simp add: clusters_def)
qed

lemma foldO_countStep_total:
  "wf (uf_rel parent) \<Longrightarrow>
     \<exists>c p'. foldO countStep ns (counts, parent) = Some (c, p') \<and> wf (uf_rel p')"
proof (induction ns arbitrary: counts parent)
  case Nil
  then show ?case by simp
next
  case (Cons n ns)
  obtain r p1 where p1: "uf_find parent n = Some (r, p1)" "uf_rel p1 = uf_rel parent"
    using uf_find_total [OF Cons.prems] by blast
  then have "wf (uf_rel p1)" using Cons.prems by simp
  from Cons.IH [OF this] show ?case using p1(1) by (simp add: countStep_def)
qed

section \<open>Properties of the topology engine\<close>

lemma getNodeType_Some: "\<exists>ty. getNodeType (Some s) labels = Inr ty"
  by (simp add: getNodeType_def split: option.splits)

lemma nodeStep_total:
  assumes "wf (uf_rel (na_parent acc))"
  shows "(ident = None \<longrightarrow> nodeStep env th labels bal counts hop ident acc = Some (Inl TypeError))
       \<and> (ident \<noteq> None \<longrightarrow> (\<exists>acc'. nodeStep env th labels bal counts hop ident acc = Some (Inr acc')
                                  \<and> wf (uf_rel (na_parent acc'))))"
proof -
  obtain r p where f: "uf_find (na_parent acc) ident = Some (r, p)" "uf_rel p = uf_rel (na_parent acc)"
    using uf_find_total [OF assms] by blast
  then have w: "wf (uf_rel p)" using assms by simp
  show ?thesis
  proof (cases ident)
    case None
    then show ?thesis using f(1) by (simp add: nodeStep_def Let_def getNodeType_def)
  next
    case (Some s)
    obtain ty where "getNodeType (Some s) labels = Inr ty" using getNodeType_Some by blast
    then show ?thesis using f(1) w Some by (simp add: nodeStep_def Let_def)
  qed
qed

lemma foldOE_nodeStep_total:
  assumes "wf (uf_rel (na_parent acc))"
  shows "(None \<in> set ns \<longrightarrow> foldOE (nodeStep env th labels bal counts hop) ns acc = Some (Inl TypeError))
       \<and> (None \<notin> set ns \<longrightarrow> (\<exists>acc'. foldOE (nodeStep env th labels bal counts hop) ns acc = Some (Inr acc')))"
  using assms
proof (induction ns arbitrary: acc)
  case Nil
  then show ?case by simp
next
  case (Cons n ns)
  show ?case
  proof (cases n)
    case None
    then show ?thesis
      using nodeStep_total [OF Cons.prems, of n env th labels bal counts hop] by simp
  next
    case (Some s)
    then obtain acc1 where a: "nodeStep env th labels bal counts hop n acc = Some (Inr acc1)"
        "wf (uf_rel (na_parent acc1))"
      using nodeStep_total [OF Cons.prems, of n env th labels bal counts hop] by auto
    show ?thesis using Cons.IH [OF a(2)] a(1) Some by simp
  qed
qed

lemma unionLink_apply:
  "unionLink l (ns, p) =
     (case uf_union (lk_source l) (lk_target l) p of
        None \<Rightarrow> None
      | Some p' \<Rightarrow> Some (set_add (lk_target l) (set_add (lk_source l) ns), p'))"
  by (simp add: unionLink_def)

lemma foldO_unionLink_nodes:
  "foldO unionLink ls (ns, p) = Some (ns', p')
   \<Longrightarrow> set ns' = set ns \<union> lk_source ` set ls \<union> lk_target ` set ls"
proof (induction ls arbitrary: ns p)
  case Nil
  then show ?case by simp
next
  case (Cons l ls)
  from Cons.prems obtain p1 where p1: "uf_union (lk_source l) (lk_target l) p = Some p1"
      "foldO unionLink ls (set_add (lk_target l) (set_add (lk_source l) ns), p1) = Some (ns', p')"
    by (auto simp: unionLink_apply split: option.splits)
  show ?case using Cons.IH [OF p1(2)] by (auto simp: set_set_add)
qed

lemma fold_addIsolated_nodes:
  "set (fst (fold addIsolated vs s)) = set (fst s) \<union> set vs"
proof (induction vs arbitrary: s)
  case Nil
  then show ?case by simp
next
  case (Cons v vs)
  have "set (fst (addIsolated v s)) = insert v (set (fst s))"
    by (cases s) (auto simp: addIsolated_def set_set_add)
  then show ?case using Cons.IH [of "addIsolated v s"] by auto
qed

lemma preFilteredLinks_ends:
  "l \<in> set (preFilteredLinks g) \<Longrightarrow> lk_source l \<in> set (validNodes g) \<and> lk_target l \<in> set (validNodes g)"
  by (auto simp: preFilteredLinks_def Let_def)

lemma clusters_nodes:
  assumes "clusters (preFilteredLinks g) (validNodes g) = Some (nodeSet, parent)"
  shows "set nodeSet = set (validNodes g)"
proof -
  obtain ns p where f: "foldO unionLink (preFilteredLinks g) ([], []) = Some (ns, p)"
      and r: "fold addIsolated (validNodes g) (ns, p) = (nodeSet, parent)"
    using assms by (auto simp: clusters_def split: option.splits)
  have "set ns \<subseteq> set (validNodes g)"
    using foldO_unionLink_nodes [OF f] preFilteredLinks_ends [of _ g] by auto
  moreover have "set nodeSet = set ns \<union> set (validNodes g)"
    using fold_addIsolated_nodes [of "validNodes g" "(ns, p)"] r by simp
  ultimately show ?thesis by auto
qed

lemma foldE_seedNode_error: "foldE (seedNode base) vs s = Inl e \<Longrightarrow> e = TypeError"
proof (induction vs arbitrary: s)
  case Nil
  then show ?case by simp
next
  case (Cons v vs)
  then show ?case
    by (cases s) (auto simp: seedNode_def split: sum.splits option.splits if_splits)
qed

lemma hopLabeler_error: "hopLabeler bases g = Inl e \<Longrightarrow> e = TypeError"
proof -
  have "foldE (\<lambda>base. foldE (seedNode base) vs) bases s = Inl e \<Longrightarrow> e = TypeError" for vs s
  proof (induction bases arbitrary: s)
    case Nil
    then show ?case by simp
  next
    case (Cons b bases)
    then show ?case using foldE_seedNode_error by (auto split: sum.splits)
  qed
  then show "hopLabeler bases g = Inl e \<Longrightarrow> e = TypeError"
    by (auto simp: hopLabeler_def seedHops_def split: sum.splits)
qed

lemma topology_total:
  fixes env props
  defines "g \<equiv> buildGraph (filterData (endOfDay env) (filters props) (data props))"
  shows "(None \<in> set (validNodes g) \<longrightarrow> topology env props = Some (Inl TypeError))
       \<and> (None \<notin> set (validNodes g) \<longrightarrow> (\<exists>t. topology env props = Some (Inr t)))"
proof (cases "hopLabeler (baseAddresses props) g")
  case (Inl e)
  then have e: "e = TypeError" by (rule hopLabeler_error)
  have "None \<in> set (validNodes g)"
  proof (rule ccontr)
    assume "None \<notin> set (validNodes g)"
    then obtain s where "seedHops (baseAddresses props) (validNodes g) = Inr s"
      using seedHops_total by blast
    then show False using Inl by (simp add: hopLabeler_def)
  qed
  then show ?thesis using Inl e by (simp add: topology_def Let_def flip: g_def)
next
  case (Inr hopMap)
  obtain nodeSet parent where c: "clusters (preFilteredLinks g) (validNodes g) = Some (nodeSet, parent)"
      and w: "wf (uf_rel parent)"
    using clusters_total by blast
  have ns: "set nodeSet = set (validNodes g)" using clusters_nodes [OF c] .
  obtain counts parent1 where k: "foldO countStep nodeSet ([], parent) = Some (counts, parent1)"
      and w1: "wf (uf_rel parent1)"
    using foldO_countStep_total [OF w] by blast
  let ?acc = "\<lparr>na_parent = parent1, na_rootColors = [], na_colorCounter = 0, na_nodes = []\<rparr>"
  have "wf (uf_rel (na_parent ?acc))" using w1 by simp
  note n = foldOE_nodeStep_total [OF this, of nodeSet env "theme props" "sharedLabels props"
      "balanceMap g" counts hopMap]
  show ?thesis
  proof (cases "None \<in> set (validNodes g)")
    case True
    then show ?thesis using n ns Inr c k by (simp add: topology_def Let_def flip: g_def)
  next
    case False
    then obtain acc where "foldOE (nodeStep env (theme props) (sharedLabels props) (balanceMap g)
        counts hopMap) nodeSet ?acc = Some (Inr acc)"
      using n ns by auto
    then show ?thesis using False Inr c k by (simp add: topology_def Let_def flip: g_def)
  qed
qed


lemma plain_filter:
  "filterData (endOfDay (steadyEnv r)) (filters (plainProps txs bases)) (data (plainProps txs bases))
     = filterData utcEndOfDay (allOf native) txs"
  by (simp add: steadyEnv_def plainProps_def)













lemma empty_topology:
  "topology (steadyEnv r) (plainProps [] [])
   = Some (Inr \<lparr>nodes = [], links = [],
      radiusScale = \<lparr>sc_domain = (PosInfinity, NegInfinity), sc_range = (20, 80), sc_clamp = True\<rparr>\<rparr>)"
  by (simp add: topology_def plain_filter filterData_def preTokenFilter_def allOf_def
      availableTokens_def tokenFilter_def buildGraph_def hopLabeler_def seedHops_def
      preFilteredLinks_def validNodes_def map_keys_def map_values_def clusters_def
      plainProps_def finish_def rScale_def Math_min_def Math_max_def orDefault_def Let_def)

lemma senderless_filter: "filterData utcEndOfDay (allOf native) [senderless] = [senderless]"
  by (simp add: filterData_def preTokenFilter_def allOf_def transfer_def senderless_def
      availableTokens_def tokenFilter_def)

lemma senderless_graph:
  "buildGraph [senderless] =
     \<lparr>balanceMap = [(None, 1), (Some ''b'', 1)],
      adj = [(None, [Some ''b'']), (Some ''b'', [None])],
      linkMap = [(''undefined-b'', linkUB)]\<rparr>"
  by (simp add: buildGraph_def transfer_def senderless_def addTransfer_def Let_def getOrZero_def
      map_has_def set_add_def linkKey_def str_def linkUB_def)

lemma senderless_nodes: "validNodes (buildGraph [senderless]) = [None, Some ''b'']"
  unfolding senderless_graph by (simp add: validNodes_def map_keys_def)

lemma senderless_links: "preFilteredLinks (buildGraph [senderless]) = [linkUB]"
  unfolding preFilteredLinks_def senderless_nodes unfolding senderless_graph
  by (simp add: map_values_def Let_def) (simp add: linkUB_def linkKey_def str_def)

lemma senderless_hops: "hopLabeler [] (buildGraph [senderless]) = Inr []"
  by (simp add: hopLabeler_def seedHops_def)

lemma senderless_clusters:
  "clusters [linkUB] [None, Some ''b'']
   = Some ([None, Some ''b''], [(None, Some ''b''), (Some ''b'', Some ''b'')])"
  by (simp add: clusters_def unionLink_def uf_union_def uf_find.simps set_add_def addIsolated_def linkUB_def)

lemma senderless_counts:
  "foldO countStep [None, Some ''b''] ([], [(None, Some ''b''), (Some ''b'', Some ''b'')])
   = Some ([(Some ''b'', 2)], [(None, Some ''b''), (Some ''b'', Some ''b'')])"
  by (simp add: countStep_def uf_find.simps)

lemma senderless_steps:
  "foldOE (nodeStep env light [] bal [(Some ''b'', 2)] []) [None, Some ''b'']
     \<lparr>na_parent = [(None, Some ''b''), (Some ''b'', Some ''b'')], na_rootColors = [],
      na_colorCounter = 0, na_nodes = []\<rparr>
   = Some (Inl TypeError)"
  by (simp add: nodeStep_def uf_find.simps getNodeType_def Let_def)

lemma senderless_topology:
  "topology (steadyEnv r) (plainProps [senderless] []) = Some (Inl TypeError)"
proof -
  have b: "baseAddresses (plainProps [senderless] []) = []"
    and t: "theme (plainProps [senderless] []) = light"
    and l: "sharedLabels (plainProps [senderless] []) = []"
    by (simp_all add: plainProps_def)
  show ?thesis
    unfolding topology_def plain_filter senderless_filter Let_def b t l senderless_hops
      senderless_links senderless_nodes
    by (simp only: senderless_clusters senderless_counts senderless_steps option.case prod.case sum.case)
qed

text \<open>
  C9, as the code has it. No transfer that passes the filters is skipped, whether it
  has both addresses or not: its sender and its receiver (\<^verbatim>\<open>undefined\<close> where missing)
  are nodes, its value is in both balances, its two ends are adjacent, and its key has
  a link, which is in the link list. Whenever such a transfer lacks an address,
  \<^verbatim>\<open>undefined\<close> is a node and graph construction throws a \<^verbatim>\<open>TypeError\<close>.
\<close>

theorem malformed_records_not_skipped:
  assumes "r = filterData (endOfDay env) (filters props) (data props)"
  shows "(\<forall>t\<in>set r. tx_from t \<in> set (validNodes (buildGraph r))
               \<and> tx_to t \<in> set (validNodes (buildGraph r))
               \<and> edgeOf (adj (buildGraph r)) (tx_from t) (tx_to t)
               \<and> edgeOf (adj (buildGraph r)) (tx_to t) (tx_from t)
               \<and> map_of (linkMap (buildGraph r)) (linkKey (tx_from t) (tx_to t)) \<noteq> None)
       \<and> (\<forall>v. getOrZero (balanceMap (buildGraph r)) v = sum_list (map (contribution v) r))
       \<and> (\<forall>k. map_of (linkMap (buildGraph r)) k = linkFor r k)
       \<and> map (\<lambda>l. l\<lparr>lk_isBidirectional := False\<rparr>) (preFilteredLinks (buildGraph r))
           = map_values (linkMap (buildGraph r))
       \<and> ((\<exists>t\<in>set r. tx_from t = None \<or> tx_to t = None)
            \<longrightarrow> None \<in> set (validNodes (buildGraph r)) \<and> topology env props = Some (Inl TypeError))"
proof (intro conjI ballI allI impI)
  fix t assume t: "t \<in> set r"
  show "tx_from t \<in> set (validNodes (buildGraph r))" "tx_to t \<in> set (validNodes (buildGraph r))"
    using t by (simp_all add: buildGraph_nodes)
  show "edgeOf (adj (buildGraph r)) (tx_from t) (tx_to t)" "edgeOf (adj (buildGraph r)) (tx_to t) (tx_from t)"
    using t by (auto simp: buildGraph_edge undirEdge_def)
  have "filter (\<lambda>u. linkKey (tx_from u) (tx_to u) = linkKey (tx_from t) (tx_to t)) r \<noteq> []"
    using t by (auto simp: filter_empty_conv)
  then show "map_of (linkMap (buildGraph r)) (linkKey (tx_from t) (tx_to t)) \<noteq> None"
    by (simp add: buildGraph_links linkFor_def split: list.splits)
next
  show "getOrZero (balanceMap (buildGraph r)) v = sum_list (map (contribution v) r)" for v
    by (rule buildGraph_balance)
  show "map_of (linkMap (buildGraph r)) k = linkFor r k" for k
    by (rule buildGraph_links)
  show "map (\<lambda>l. l\<lparr>lk_isBidirectional := False\<rparr>) (preFilteredLinks (buildGraph r))
           = map_values (linkMap (buildGraph r))"
    by (rule preFilteredLinks_all)
next
  assume m: "\<exists>t\<in>set r. tx_from t = None \<or> tx_to t = None"
  have "None \<in> tx_from ` set r \<union> tx_to ` set r" using m by force
  then show n: "None \<in> set (validNodes (buildGraph r))" by (simp only: buildGraph_nodes)
  then show "topology env props = Some (Inl TypeError)"
    using topology_total [of env props] by (simp add: assms)
qed

text \<open>
  C9 as amended, on one transfer without sender: \<^verbatim>\<open>undefined\<close> is a node, adjacent to
  the receiver, with a link and a balance, and the memo throws.
\<close>

theorem malformed_records_not_skipped_witness:
  "None \<in> set (validNodes (buildGraph [senderless]))
   \<and> edgeOf (adj (buildGraph [senderless])) None (Some ''b'')
   \<and> map_of (linkMap (buildGraph [senderless])) ''undefined-b'' \<noteq> None
   \<and> getOrZero (balanceMap (buildGraph [senderless])) None = sum_list (map (contribution None) [senderless])
   \<and> topology (steadyEnv 0) (plainProps [senderless] []) = Some (Inl TypeError)"
proof -
  have r: "[senderless] = filterData (endOfDay (steadyEnv 0)) (filters (plainProps [senderless] []))
      (data (plainProps [senderless] []))"
    unfolding plain_filter senderless_filter ..
  note T = malformed_records_not_skipped [OF r]
  have f: "tx_from senderless = None" and t: "tx_to senderless = Some ''b''"
    by (simp_all add: senderless_def transfer_def)
  have k: "linkKey None (Some ''b'') = ''undefined-b''" by (simp add: linkKey_def str_def)
  have m: "\<exists>t\<in>set [senderless]. tx_from t = None \<or> tx_to t = None" using f by simp
  have "None \<in> set (validNodes (buildGraph [senderless]))
      \<and> topology (steadyEnv 0) (plainProps [senderless] []) = Some (Inl TypeError)"
    using T m by blast
  moreover have "edgeOf (adj (buildGraph [senderless])) None (Some ''b'')"
    and "map_of (linkMap (buildGraph [senderless])) ''undefined-b'' \<noteq> None"
    using T f t k by (metis list.set_intros(1))+
  moreover have "getOrZero (balanceMap (buildGraph [senderless])) None
      = sum_list (map (contribution None) [senderless])"
    using T by blast
  ultimately show ?thesis by blast
qed

text \<open>
  C9, as the claim states it, fails: the transfer without sender passes the filters, is
  entered under \<^verbatim>\<open>undefined\<close> into balances, adjacency and links, and the memo throws.
\<close>

theorem malformed_record_counterexample:
  "tx_from senderless = None
   \<and> filterData (endOfDay (steadyEnv 0)) (filters (plainProps [senderless] [])) (data (plainProps [senderless] []))
       = [senderless]
   \<and> balanceMap (buildGraph [senderless]) = [(None, 1), (Some ''b'', 1)]
   \<and> adj (buildGraph [senderless]) = [(None, [Some ''b'']), (Some ''b'', [None])]
   \<and> linkMap (buildGraph [senderless]) = [(''undefined-b'', linkUB)]
   \<and> topology (steadyEnv 0) (plainProps [senderless] []) = Some (Inl TypeError)"
  unfolding plain_filter senderless_filter senderless_topology senderless_graph
  by (simp add: senderless_def)

text \<open>
  C8 on the empty transfer list: the node set is empty, \<^verbatim>\<open>Math.min()\<close> is \<^verbatim>\<open>Infinity\<close>
  and \<^verbatim>\<open>Math.max()\<close> is \<^verbatim>\<open>-Infinity\<close>, both truthy, so the defaults behind \<^verbatim>\<open>||\<close>
  are not taken and the domain handed to the scale is \<open>[Infinity, -Infinity]\<close>, not
  \<open>[0.001, 1]\<close>. On a single node of balance zero the defaults are taken.
\<close>

theorem empty_node_set_scale_domain:
  "topology (steadyEnv 0) (plainProps [] [])
   = Some (Inr \<lparr>nodes = [], links = [],
      radiusScale = \<lparr>sc_domain = (PosInfinity, NegInfinity), sc_range = (20, 80), sc_clamp = True\<rparr>\<rparr>)
   \<and> rScale [(walletNode ''a'' 0)\<lparr>nd_balance := 0\<rparr>]
      = \<lparr>sc_domain = (Num (1 / 1000), Num 1), sc_range = (20, 80), sc_clamp = True\<rparr>"
  unfolding empty_topology
  by (simp add: rScale_def Math_min_def Math_max_def orDefault_def walletNode_def)









end
